theory Spec2Isabelle
  imports Complex_Main
begin

section \<open>The PDD manager of \<^verbatim>\<open>dd_pdd.cpp\<close>: data model\<close>

text \<open>
  A \<^verbatim>\<open>PDD\<close> is an index into the node pool \<^verbatim>\<open>m_nodes\<close>. The manager is a record
  of the fields the operations read and write; every operation takes the manager and
  returns the new one. Vectors are lists whose last element is \<^verbatim>\<open>back()\<close>; the hash
  tables (unique table, value table, op cache) are maps keyed by what their hash and
  equality functions compare.
\<close>

type_synonym PDD = nat

record pdd_node =
  m_refcount :: nat
  m_level :: nat
  m_lo :: PDD
  m_hi :: PDD
  m_index :: nat

record const_info =
  m_value_index :: nat
  m_node_index :: PDD

datatype error = mem_out | undefined_behaviour | out_of_fuel

record manager =
  m_nodes :: "pdd_node list"
  m_free_nodes :: "PDD list"
  m_values :: "rat list"
  m_free_values :: "nat list"
  m_mpq_table :: "rat \<Rightarrow> const_info option"
  m_node_table :: "nat \<times> PDD \<times> PDD \<Rightarrow> PDD option"
  m_op_cache :: "PDD \<times> PDD \<times> nat \<Rightarrow> PDD option"
  m_pdd_stack :: "PDD list"
  m_var2pdd :: "PDD list"
  m_var2level :: "nat list"
  m_level2var :: "nat list"
  m_max_num_pdd_nodes :: nat
  m_disable_gc :: bool
  m_is_new_node :: bool
  m_mod2_semantics :: bool
  m_freeze_value :: rat

text \<open>
  Modelled from the spec: the declarations of \<^verbatim>\<open>dd_pdd.h\<close> are not part of the
  sources. The constants and the node constructors and predicates below follow section 3
  of the specification (ids 0 and 1 are the constants, \<^verbatim>\<open>max_rc\<close> pins a node, a value
  node has \<^verbatim>\<open>hi = 0\<close> and carries its value index in \<^verbatim>\<open>lo\<close>, a slot in the free list is
  internal) and the uses the source makes of them.
\<close>

definition zero_pdd :: PDD where "zero_pdd = 0"
definition one_pdd :: PDD where "one_pdd = 1"
definition null_pdd :: PDD where "null_pdd = 4294967295"
definition max_rc :: nat where "max_rc = 1023"

definition pdd_add_op :: nat where "pdd_add_op = 2"
definition pdd_minus_op :: nat where "pdd_minus_op = 3"
definition pdd_mul_op :: nat where "pdd_mul_op = 4"
definition pdd_reduce_op :: nat where "pdd_reduce_op = 5"
definition pdd_no_op :: nat where "pdd_no_op = 6"

definition mk_node :: "nat \<Rightarrow> PDD \<Rightarrow> PDD \<Rightarrow> pdd_node" where
  "mk_node lvl l h = \<lparr>m_refcount = 0, m_level = lvl, m_lo = l, m_hi = h, m_index = 0\<rparr>"

definition mk_value_node :: "nat \<Rightarrow> pdd_node" where
  "mk_value_node vi = mk_node 0 vi 0"

definition empty_node :: pdd_node where
  "empty_node = mk_node 0 0 0"

definition node_is_val :: "pdd_node \<Rightarrow> bool" where
  "node_is_val n = (m_hi n = 0 \<and> (m_lo n \<noteq> 0 \<or> m_index n = 0))"

definition node_is_internal :: "pdd_node \<Rightarrow> bool" where
  "node_is_internal n = (m_lo n = 0 \<and> m_hi n = 0 \<and> m_index n \<noteq> 0)"

definition set_internal :: "pdd_node \<Rightarrow> pdd_node" where
  "set_internal n = n\<lparr>m_lo := 0, m_hi := 0\<rparr>"

definition node_key :: "pdd_node \<Rightarrow> nat \<times> PDD \<times> PDD" where
  "node_key n = (m_level n, m_lo n, m_hi n)"

definition level :: "manager \<Rightarrow> PDD \<Rightarrow> nat" where
  "level m p = m_level (m_nodes m ! p)"

definition lo :: "manager \<Rightarrow> PDD \<Rightarrow> PDD" where
  "lo m p = m_lo (m_nodes m ! p)"

definition hi :: "manager \<Rightarrow> PDD \<Rightarrow> PDD" where
  "hi m p = m_hi (m_nodes m ! p)"

definition is_val :: "manager \<Rightarrow> PDD \<Rightarrow> bool" where
  "is_val m p = node_is_val (m_nodes m ! p)"

definition is_zero :: "PDD \<Rightarrow> bool" where
  "is_zero p = (p = zero_pdd)"

definition is_one :: "PDD \<Rightarrow> bool" where
  "is_one p = (p = one_pdd)"

definition val :: "manager \<Rightarrow> PDD \<Rightarrow> rat" where
  "val m p = m_values m ! lo m p"

definition var :: "manager \<Rightarrow> PDD \<Rightarrow> nat" where
  "var m p = m_level2var m ! level m p"

definition inc_ref :: "PDD \<Rightarrow> manager \<Rightarrow> manager" where
  "inc_ref p m =
     (if m_refcount (m_nodes m ! p) \<noteq> max_rc
      then m\<lparr>m_nodes := (m_nodes m)[p := (m_nodes m ! p)\<lparr>m_refcount := m_refcount (m_nodes m ! p) + 1\<rparr>]\<rparr>
      else m)"

definition dec_ref :: "PDD \<Rightarrow> manager \<Rightarrow> manager" where
  "dec_ref p m =
     (if m_refcount (m_nodes m ! p) \<noteq> max_rc \<and> 0 < m_refcount (m_nodes m ! p)
      then m\<lparr>m_nodes := (m_nodes m)[p := (m_nodes m ! p)\<lparr>m_refcount := m_refcount (m_nodes m ! p) - 1\<rparr>]\<rparr>
      else m)"

section \<open>Evaluation stack\<close>

definition push :: "PDD \<Rightarrow> manager \<Rightarrow> manager" where
  "push b m = m\<lparr>m_pdd_stack := m_pdd_stack m @ [b]\<rparr>"

definition pop :: "nat \<Rightarrow> manager \<Rightarrow> manager" where
  "pop num_scopes m = m\<lparr>m_pdd_stack := take (length (m_pdd_stack m) - num_scopes) (m_pdd_stack m)\<rparr>"

text \<open>
  \<^verbatim>\<open>read(index)\<close> is \<^verbatim>\<open>m_pdd_stack[m_pdd_stack.size() - index]\<close> on unsigned integers:
  an index above the size wraps around and reads beyond the vector, index 0 reads one
  past the end. Both are reads out of range, \<open>None\<close> here.
\<close>

definition read :: "manager \<Rightarrow> nat \<Rightarrow> PDD option" where
  "read m idx =
     (if idx = 0 \<or> length (m_pdd_stack m) < idx then None
      else Some (m_pdd_stack m ! (length (m_pdd_stack m) - idx)))"

section \<open>Node pool, garbage collection and the unique table\<close>

primrec alloc_loop :: "nat \<Rightarrow> manager \<Rightarrow> manager" where
  "alloc_loop 0 m = m"
| "alloc_loop (Suc k) m =
     alloc_loop k (m\<lparr>m_nodes := m_nodes m @ [empty_node\<lparr>m_index := length (m_nodes m)\<rparr>],
                     m_free_nodes := m_free_nodes m @ [length (m_nodes m)]\<rparr>)"

definition alloc_free_nodes :: "nat \<Rightarrow> manager \<Rightarrow> manager" where
  "alloc_free_nodes n m = (let m1 = alloc_loop n m in m1\<lparr>m_free_nodes := rev (m_free_nodes m1)\<rparr>)"

text \<open>
  The marking phase of \<^verbatim>\<open>gc\<close>. \<^verbatim>\<open>reachable\<close> is the local bit vector, the work list
  \<^verbatim>\<open>m_todo\<close> is kept with its \<^verbatim>\<open>back()\<close> at the head; it is empty when \<^verbatim>\<open>gc\<close> starts,
  since every traversal drains it. An index beyond \<^verbatim>\<open>reachable\<close> is a write out of
  range: \<open>None\<close>.
\<close>

fun gc_seed_stack :: "PDD list \<Rightarrow> bool list \<times> PDD list \<Rightarrow> (bool list \<times> PDD list) option" where
  "gc_seed_stack [] rt = Some rt"
| "gc_seed_stack (p # ps) (reach, todo) =
     (if p < length reach then gc_seed_stack ps (reach[p := True], p # todo) else None)"

fun gc_seed_refs :: "manager \<Rightarrow> nat list \<Rightarrow> bool list \<times> PDD list \<Rightarrow> bool list \<times> PDD list" where
  "gc_seed_refs m [] rt = rt"
| "gc_seed_refs m (i # is) (reach, todo) =
     (if 0 < m_refcount (m_nodes m ! i) then gc_seed_refs m is (reach[i := True], i # todo)
      else gc_seed_refs m is (reach, todo))"

definition mark_child :: "PDD \<Rightarrow> bool list \<times> PDD list \<Rightarrow> bool list \<times> PDD list" where
  "mark_child c rt = (case rt of (reach, todo) \<Rightarrow>
     if \<not> reach ! c then (reach[c := True], c # todo) else (reach, todo))"

function gc_mark :: "manager \<Rightarrow> bool list \<times> PDD list \<Rightarrow> bool list option" where
  "gc_mark m (reach, []) = Some reach"
| "gc_mark m (reach, p # todo) =
     (if \<not> p < length (m_nodes m) then None
      else if is_val m p then gc_mark m (reach, todo)
      else if \<not> (lo m p < length reach \<and> hi m p < length reach) then None
      else gc_mark m (mark_child (hi m p) (mark_child (lo m p) (reach, todo))))"
  by pat_completeness auto

definition mark_measure :: "bool list \<times> PDD list \<Rightarrow> nat" where
  "mark_measure rt = 2 * length (filter Not (fst rt)) + length (snd rt)"

lemma filter_Not_update:
  "i < length r \<Longrightarrow> \<not> r ! i \<Longrightarrow> Suc (length (filter Not (r[i := True]))) = length (filter Not r)"
proof (induction r arbitrary: i)
  case Nil
  then show ?case by simp
next
  case (Cons a r)
  then show ?case by (cases i) auto
qed

lemma mark_child_length: "length (fst (mark_child c rt)) = length (fst rt)"
  by (cases rt) (simp add: mark_child_def)

lemma mark_child_measure:
  "c < length (fst rt) \<Longrightarrow> mark_measure (mark_child c rt) \<le> mark_measure rt"
  using filter_Not_update[of c "fst rt"]
  by (cases rt) (auto simp: mark_child_def mark_measure_def)

termination gc_mark
proof (relation "measure (\<lambda>(m, rt). mark_measure rt)", goal_cases)
  case 1
  show ?case by simp
next
  case (2 m reach p todo)
  then show ?case by (simp add: mark_measure_def)
next
  case (3 m reach p todo)
  have a: "mark_measure (mark_child (lo m p) (reach, todo)) \<le> mark_measure (reach, todo)"
    using 3 by (intro mark_child_measure) simp
  have "mark_measure (mark_child (hi m p) (mark_child (lo m p) (reach, todo)))
        \<le> mark_measure (mark_child (lo m p) (reach, todo))"
    using 3 by (intro mark_child_measure) (simp add: mark_child_length)
  with a show ?case by (simp add: mark_measure_def)
qed

text \<open>
  The sweep: the loop \<^verbatim>\<open>for (i = size; i-- > 2; )\<close> over the unreachable slots. An
  unreachable value node keeps its slot when its rational is \<^verbatim>\<open>m_freeze_value\<close>;
  otherwise its value index goes back to \<^verbatim>\<open>m_free_values\<close> and the rational leaves the
  value table (\<^verbatim>\<open>find\<close> of a rational the table does not hold dereferences nothing:
  \<open>None\<close>).
\<close>

definition free_slot :: "PDD \<Rightarrow> manager \<Rightarrow> manager" where
  "free_slot i m = m\<lparr>m_nodes := (m_nodes m)[i := set_internal (m_nodes m ! i)],
                      m_free_nodes := m_free_nodes m @ [i]\<rparr>"

fun gc_sweep :: "bool list \<Rightarrow> nat list \<Rightarrow> manager \<Rightarrow> manager option" where
  "gc_sweep reach [] m = Some m"
| "gc_sweep reach (i # is) m =
     (if reach ! i then gc_sweep reach is m
      else if is_val m i then
        (if m_freeze_value m = val m i then gc_sweep reach is m
         else case m_mpq_table m (val m i) of
           None \<Rightarrow> None
         | Some info \<Rightarrow>
             gc_sweep reach is
               (free_slot i (m\<lparr>m_free_values := m_free_values m @ [m_value_index info],
                                m_mpq_table := (m_mpq_table m)(val m i := None)\<rparr>)))
      else gc_sweep reach is (free_slot i m))"

fun gc_rebuild :: "manager \<Rightarrow> bool list \<Rightarrow> nat list \<Rightarrow>
    (nat \<times> PDD \<times> PDD \<Rightarrow> PDD option) \<Rightarrow> (nat \<times> PDD \<times> PDD \<Rightarrow> PDD option)" where
  "gc_rebuild m reach [] tbl = tbl"
| "gc_rebuild m reach (i # is) tbl =
     (if reach ! i
      then gc_rebuild m reach is (tbl(node_key (m_nodes m ! i) \<mapsto> m_index (m_nodes m ! i)))
      else gc_rebuild m reach is tbl)"

definition keep_pending :: "(PDD \<times> PDD \<times> nat \<Rightarrow> PDD option) \<Rightarrow> (PDD \<times> PDD \<times> nat \<Rightarrow> PDD option)" where
  "keep_pending cache = (\<lambda>k. case cache k of
       None \<Rightarrow> None
     | Some r \<Rightarrow> if r \<noteq> null_pdd then None else Some r)"

definition slots_down :: "manager \<Rightarrow> nat list" where
  "slots_down m = rev [2..<length (m_nodes m)]"

definition gc :: "manager \<Rightarrow> manager option" where
  "gc m =
     (let m0 = m\<lparr>m_free_nodes := []\<rparr> in
      case gc_seed_stack (rev (m_pdd_stack m0)) (replicate (length (m_nodes m0)) False, []) of
        None \<Rightarrow> None
      | Some rt \<Rightarrow>
         (case gc_mark m0 (gc_seed_refs m0 (slots_down m0) rt) of
            None \<Rightarrow> None
          | Some reach \<Rightarrow>
             (case gc_sweep reach (slots_down m0) m0 of
                None \<Rightarrow> None
              | Some m1 \<Rightarrow>
                  Some (m1\<lparr>m_free_nodes := rev (sort (m_free_nodes m1)),
                           m_op_cache := keep_pending (m_op_cache m1),
                           m_node_table := gc_rebuild m1 reach (slots_down m1) Map.empty\<rparr>))))"

definition try_gc :: "manager \<Rightarrow> manager option" where
  "try_gc m = (case gc m of None \<Rightarrow> None | Some m1 \<Rightarrow> Some (m1\<lparr>m_op_cache := Map.empty\<rparr>))"

text \<open>
  Results of the operations that can raise: the error or the value, and the manager as
  the operation left it (an exception does not undo the writes made before it).
\<close>

type_synonym 'a result = "(error + 'a) \<times> manager"

definition insert_if_not_there2 :: "pdd_node \<Rightarrow> manager \<Rightarrow> manager" where
  "insert_if_not_there2 n m =
     (case m_node_table m (node_key n) of
        None \<Rightarrow> m\<lparr>m_node_table := (m_node_table m)(node_key n \<mapsto> m_index n)\<rparr>
      | Some _ \<Rightarrow> m)"

definition take_free_slot :: "pdd_node \<Rightarrow> manager \<Rightarrow> PDD result" where
  "take_free_slot n m =
     (if m_free_nodes m = [] then (Inl undefined_behaviour, m)
      else let result = last (m_free_nodes m) in
        (Inr result,
         m\<lparr>m_free_nodes := butlast (m_free_nodes m),
           m_node_table := (m_node_table m)(node_key n \<mapsto> result),
           m_nodes := (m_nodes m)[result := n\<lparr>m_refcount := 0, m_index := result\<rparr>],
           m_is_new_node := True\<rparr>))"

definition insert_node :: "pdd_node \<Rightarrow> manager \<Rightarrow> PDD result" where
  "insert_node n m =
     (let m1 = insert_if_not_there2 n m in
      if the (m_node_table m1 (node_key n)) \<noteq> 0 then (Inr (the (m_node_table m1 (node_key n))), m1)
      else
        let do_gc = (m_free_nodes m1 = []) in
        case (if do_gc \<and> \<not> m_disable_gc m1
              then (case gc m1 of None \<Rightarrow> None | Some m2 \<Rightarrow> Some (insert_if_not_there2 n m2))
              else Some m1) of
          None \<Rightarrow> (Inl undefined_behaviour, m1)
        | Some m2 \<Rightarrow>
            if do_gc then
              (if length (m_nodes m2) > m_max_num_pdd_nodes m2 then (Inl mem_out, m2)
               else take_free_slot n (alloc_free_nodes (length (m_nodes m2) div 2) m2))
            else take_free_slot n m2)"

definition make_node :: "nat \<Rightarrow> PDD \<Rightarrow> PDD \<Rightarrow> manager \<Rightarrow> PDD result" where
  "make_node lvl l h m =
     (let m1 = m\<lparr>m_is_new_node := False\<rparr> in
      if is_zero h then (Inr l, m1) else insert_node (mk_node lvl l h) m1)"

definition init_value :: "rat \<Rightarrow> manager \<Rightarrow> PDD result" where
  "init_value r m =
     (let (vi, m1) =
        (if m_free_values m = [] then (length (m_values m), m\<lparr>m_values := m_values m @ [r]\<rparr>)
         else (last (m_free_values m),
               m\<lparr>m_free_values := butlast (m_free_values m),
                 m_values := (m_values m)[last (m_free_values m) := r]\<rparr>));
          m2 = m1\<lparr>m_freeze_value := r\<rparr>
      in case insert_node (mk_value_node vi) m2 of
           (Inl e, m3) \<Rightarrow> (Inl e, m3)
         | (Inr ni, m3) \<Rightarrow>
             (Inr ni, m3\<lparr>m_mpq_table := (m_mpq_table m3)(r \<mapsto> \<lparr>m_value_index = vi, m_node_index = ni\<rparr>)\<rparr>))"

text \<open>
  \<^verbatim>\<open>mod(r, rational(2))\<close> is the integer remainder; it is 0 or 1, so the recursive call
  of \<^verbatim>\<open>imk_val\<close> in the mod-2 branch returns in one of its first two lines.
\<close>

definition mod2 :: "rat \<Rightarrow> rat" where
  "mod2 r = of_int (\<lfloor>r\<rfloor> mod 2)"

definition imk_val :: "rat \<Rightarrow> manager \<Rightarrow> PDD result" where
  "imk_val r m =
     (if r = 0 then (Inr zero_pdd, m)
      else if r = 1 then (Inr one_pdd, m)
      else if m_mod2_semantics m then (if mod2 r = 0 then (Inr zero_pdd, m) else (Inr one_pdd, m))
      else case m_mpq_table m r of
             None \<Rightarrow> init_value r m
           | Some info \<Rightarrow> (Inr (m_node_index info), m))"

definition then_do :: "'a result \<Rightarrow> ('a \<Rightarrow> manager \<Rightarrow> 'b result) \<Rightarrow> 'b result" where
  "then_do r f = (case r of (Inl e, m) \<Rightarrow> (Inl e, m) | (Inr x, m) \<Rightarrow> f x m)"

section \<open>Variables and the constructor\<close>

definition pin :: "PDD \<Rightarrow> manager \<Rightarrow> manager" where
  "pin p m = m\<lparr>m_nodes := (m_nodes m)[p := (m_nodes m ! p)\<lparr>m_refcount := max_rc\<rparr>]\<rparr>"

text \<open>
  \<^verbatim>\<open>reserve_var(i)\<close>: the loop \<^verbatim>\<open>while (m_var2level.size() <= i)\<close>; every round adds
  one variable, so it makes \<open>i + 1 - size\<close> rounds unless \<^verbatim>\<open>make_node\<close> raises.
\<close>

primrec reserve_loop :: "nat \<Rightarrow> manager \<Rightarrow> unit result" where
  "reserve_loop 0 m = (Inr (), m)"
| "reserve_loop (Suc k) m =
     (let v = length (m_var2level m) in
      then_do (make_node v zero_pdd one_pdd m) (\<lambda>p m1.
        reserve_loop k ((pin p (m1\<lparr>m_var2pdd := m_var2pdd m1 @ [p]\<rparr>))
                          \<lparr>m_var2level := m_var2level m1 @ [v],
                            m_level2var := m_level2var m1 @ [v]\<rparr>)))"

definition reserve_var :: "nat \<Rightarrow> manager \<Rightarrow> unit result" where
  "reserve_var i m = reserve_loop (Suc i - length (m_var2level m)) m"

definition mk_var :: "nat \<Rightarrow> manager \<Rightarrow> PDD result" where
  "mk_var i m = then_do (reserve_var i m) (\<lambda>_ m1. (Inr (m_var2pdd m1 ! i), inc_ref (m_var2pdd m1 ! i) m1))"

primrec add_op_nodes :: "nat \<Rightarrow> manager \<Rightarrow> manager" where
  "add_op_nodes 0 m = m"
| "add_op_nodes (Suc k) m =
     add_op_nodes k (m\<lparr>m_nodes := m_nodes m @
         [(mk_node 0 0 0)\<lparr>m_refcount := max_rc, m_index := length (m_nodes m)\<rparr>]\<rparr>)"

primrec reserve_vars :: "nat list \<Rightarrow> manager \<Rightarrow> unit result" where
  "reserve_vars [] m = (Inr (), m)"
| "reserve_vars (i # is) m = then_do (reserve_var i m) (\<lambda>_ m1. reserve_vars is m1)"

definition blank_manager :: manager where
  "blank_manager =
     \<lparr>m_nodes = [], m_free_nodes = [], m_values = [], m_free_values = [],
      m_mpq_table = Map.empty, m_node_table = Map.empty, m_op_cache = Map.empty,
      m_pdd_stack = [], m_var2pdd = [], m_var2level = [], m_level2var = [],
      m_max_num_pdd_nodes = 2 ^ 24, m_disable_gc = False, m_is_new_node = False,
      m_mod2_semantics = False, m_freeze_value = 0\<rparr>"

text \<open>
  The constructor. The size of the initial pool, \<^verbatim>\<open>1024 + num_vars\<close> in the source, is
  the first parameter of \<open>init_manager\<close>, so that small managers can be written down.
\<close>

definition init_manager :: "nat \<Rightarrow> nat \<Rightarrow> unit result" where
  "init_manager pool_size num_vars =
     (let m0 = alloc_free_nodes pool_size blank_manager in
      then_do (init_value 0 m0) (\<lambda>_ m1.
      then_do (init_value 1 m1) (\<lambda>_ m2.
        reserve_vars [0..<num_vars]
          (add_op_nodes (Suc (pdd_no_op + 2) - 2) (pin 1 (pin 0 m2))))))"

definition pdd_manager :: "nat \<Rightarrow> unit result" where
  "pdd_manager num_vars = init_manager (1024 + num_vars) num_vars"

definition set_max_num_nodes :: "nat \<Rightarrow> manager \<Rightarrow> manager" where
  "set_max_num_nodes n m = m\<lparr>m_max_num_pdd_nodes := n\<rparr>"

definition set_level2var_step :: "nat list \<Rightarrow> nat \<Rightarrow> manager \<Rightarrow> manager" where
  "set_level2var_step level2var i m =
     m\<lparr>m_var2level := (m_var2level m)[level2var ! i := i],
       m_level2var := (m_level2var m)[i := level2var ! i]\<rparr>"

definition set_level2var :: "nat list \<Rightarrow> manager \<Rightarrow> manager" where
  "set_level2var level2var m = fold (set_level2var_step level2var) [0..<length level2var] m"

definition set_mod2_semantics :: "manager \<Rightarrow> manager" where
  "set_mod2_semantics m = m\<lparr>m_mod2_semantics := True\<rparr>"

section \<open>The arithmetic evaluator\<close>

text \<open>
  \<^verbatim>\<open>apply_rec\<close>, \<^verbatim>\<open>minus_rec\<close>, \<^verbatim>\<open>reduce_on_match\<close>, \<^verbatim>\<open>lt_quotient\<close> and \<^verbatim>\<open>apply\<close> call
  one another. Each body takes the functions it calls as the parameter \<open>rec\<close>, and
  \<open>run\<close> ties the knot with a fuel counter that every call decrements: a computation
  that does not return within the fuel is \<open>Inl out_of_fuel\<close>.
\<close>

datatype call =
    Apply_rec PDD PDD nat
  | Minus_rec PDD
  | Reduce_on_match PDD PDD
  | Lt_quotient PDD PDD
  | Apply PDD PDD nat

datatype shortcut = Done "PDD result" | Continue PDD PDD

definition read_r :: "nat \<Rightarrow> manager \<Rightarrow> PDD result" where
  "read_r idx m = (case read m idx of None \<Rightarrow> (Inl undefined_behaviour, m) | Some v \<Rightarrow> (Inr v, m))"

definition push_r :: "PDD result \<Rightarrow> unit result" where
  "push_r r = then_do r (\<lambda>b m. (Inr (), push b m))"

definition canonical_order :: "manager \<Rightarrow> PDD \<Rightarrow> PDD \<Rightarrow> shortcut" where
  "canonical_order m p q =
     (let pq1 = (if \<not> is_val m p \<and> level m p < level m q then (q, p) else (p, q));
          pq2 = (if is_val m (fst pq1) then (snd pq1, fst pq1) else pq1)
      in Continue (fst pq2) (snd pq2))"

definition apply_rec_short :: "PDD \<Rightarrow> PDD \<Rightarrow> nat \<Rightarrow> manager \<Rightarrow> shortcut" where
  "apply_rec_short p q op m =
     (if op = pdd_add_op then
        (if is_zero p then Done (Inr q, m)
         else if is_zero q then Done (Inr p, m)
         else if is_val m p \<and> is_val m q then Done (imk_val (val m p + val m q) m)
         else canonical_order m p q)
      else if op = pdd_mul_op then
        (if is_zero p \<or> is_zero q then Done (Inr zero_pdd, m)
         else if is_one p then Done (Inr q, m)
         else if is_one q then Done (Inr p, m)
         else if is_val m p \<and> is_val m q then Done (imk_val (val m p * val m q) m)
         else canonical_order m p q)
      else if op = pdd_reduce_op then
        (if is_zero q then Done (Inr p, m)
         else if is_val m p then Done (Inr p, m)
         else if level m p < level m q then Done (Inr p, m)
         else Continue p q)
      else Done (Inl undefined_behaviour, m))"

text \<open>The three arms of the second switch: each returns the node \<open>r\<close> and \<open>npop\<close>.\<close>

definition add_lo :: "(call \<Rightarrow> manager \<Rightarrow> PDD result) \<Rightarrow> nat \<Rightarrow> PDD \<Rightarrow> PDD \<Rightarrow> manager \<Rightarrow> (PDD \<times> nat) result" where
  "add_lo rec level_p p q m =
     then_do (push_r (rec (Apply_rec (lo m p) q pdd_add_op) m)) (\<lambda>_ m1.
     then_do (read_r 1 m1) (\<lambda>r1 m2.
     then_do (make_node level_p r1 (hi m2 p) m2) (\<lambda>r m3. (Inr (r, 1), m3))))"

definition add_case :: "(call \<Rightarrow> manager \<Rightarrow> PDD result) \<Rightarrow> PDD \<Rightarrow> PDD \<Rightarrow> manager \<Rightarrow> (PDD \<times> nat) result" where
  "add_case rec p q m =
     (let level_p = level m p; level_q = level m q in
      if is_val m q then add_lo rec level_p p q m
      else if level_p = level_q then
        then_do (push_r (rec (Apply_rec (lo m p) (lo m q) pdd_add_op) m)) (\<lambda>_ m1.
        then_do (push_r (rec (Apply_rec (hi m1 p) (hi m1 q) pdd_add_op) m1)) (\<lambda>_ m2.
        then_do (read_r 2 m2) (\<lambda>r2 m3.
        then_do (read_r 1 m3) (\<lambda>r1 m4.
        then_do (make_node level_p r2 r1 m4) (\<lambda>r m5. (Inr (r, 2), m5))))))
      else if level_p > level_q then add_lo rec level_p p q m
      else (Inl undefined_behaviour, m))"

definition distribute :: "(call \<Rightarrow> manager \<Rightarrow> PDD result) \<Rightarrow> nat \<Rightarrow> PDD \<Rightarrow> PDD \<Rightarrow> nat \<Rightarrow> manager \<Rightarrow> (PDD \<times> nat) result" where
  "distribute rec level_p p q op m =
     then_do (push_r (rec (Apply_rec (lo m p) q op) m)) (\<lambda>_ m1.
     then_do (push_r (rec (Apply_rec (hi m1 p) q op) m1)) (\<lambda>_ m2.
     then_do (read_r 2 m2) (\<lambda>r2 m3.
     then_do (read_r 1 m3) (\<lambda>r1 m4.
     then_do (make_node level_p r2 r1 m4) (\<lambda>r m5. (Inr (r, 2), m5))))))"

definition mul_mod2_case :: "(call \<Rightarrow> manager \<Rightarrow> PDD result) \<Rightarrow> nat \<Rightarrow> PDD \<Rightarrow> PDD \<Rightarrow> manager \<Rightarrow> (PDD \<times> nat) result" where
  "mul_mod2_case rec level_p p q m =
     then_do (push_r (rec (Apply_rec (lo m p) (lo m q) pdd_mul_op) m)) (\<lambda>_ m1.
     then_do (read_r 3 m1) (\<lambda>bd m2.
     then_do (push_r (rec (Apply_rec (hi m2 p) (lo m2 p) pdd_add_op) m2)) (\<lambda>_ m3.
     then_do (push_r (rec (Apply_rec (hi m3 q) (lo m3 q) pdd_add_op) m3)) (\<lambda>_ m4.
     then_do (read_r 1 m4) (\<lambda>a1 m5.
     then_do (read_r 2 m5) (\<lambda>a2 m6.
     then_do (push_r (rec (Apply_rec a1 a2 pdd_mul_op) m6)) (\<lambda>_ m7.
     then_do (read_r 1 m7) (\<lambda>b1 m8.
     then_do (push_r (rec (Apply_rec b1 bd pdd_add_op) m8)) (\<lambda>_ m9.
     then_do (read_r 1 m9) (\<lambda>c1 m10.
     then_do (make_node level_p bd c1 m10) (\<lambda>r m11. (Inr (r, 5), m11))))))))))))"

definition mul_q_finish :: "(call \<Rightarrow> manager \<Rightarrow> PDD result) \<Rightarrow> nat \<Rightarrow> PDD \<Rightarrow> PDD \<Rightarrow> PDD \<Rightarrow> manager \<Rightarrow> (PDD \<times> nat) result" where
  "mul_q_finish rec level_p ac bd n m =
     (if \<not> is_val m n \<and> level m n = level_p then
        then_do (push_r (rec (Apply_rec ac (hi m n) pdd_add_op) m)) (\<lambda>_ m1.
        then_do (read_r 1 m1) (\<lambda>s m2.
        then_do (push_r (make_node level_p (lo m2 n) s m2)) (\<lambda>_ m3.
        then_do (read_r 1 m3) (\<lambda>t m4.
        then_do (make_node level_p bd t m4) (\<lambda>r m5. (Inr (r, 7), m5))))))
      else
        then_do (push_r (make_node level_p n ac m)) (\<lambda>_ m1.
        then_do (read_r 1 m1) (\<lambda>t m2.
        then_do (make_node level_p bd t m2) (\<lambda>r m3. (Inr (r, 6), m3)))))"

definition mul_q_case :: "(call \<Rightarrow> manager \<Rightarrow> PDD result) \<Rightarrow> nat \<Rightarrow> PDD \<Rightarrow> PDD \<Rightarrow> manager \<Rightarrow> (PDD \<times> nat) result" where
  "mul_q_case rec level_p p q m =
     then_do (push_r (rec (Apply_rec (hi m p) (hi m q) pdd_mul_op) m)) (\<lambda>_ m1.
     then_do (push_r (rec (Apply_rec (hi m1 p) (lo m1 q) pdd_mul_op) m1)) (\<lambda>_ m2.
     then_do (push_r (rec (Apply_rec (lo m2 p) (hi m2 q) pdd_mul_op) m2)) (\<lambda>_ m3.
     then_do (push_r (rec (Apply_rec (lo m3 p) (lo m3 q) pdd_mul_op) m3)) (\<lambda>_ m4.
     then_do (read_r 4 m4) (\<lambda>ac m5.
     then_do (read_r 3 m5) (\<lambda>ad m6.
     then_do (read_r 2 m6) (\<lambda>bc m7.
     then_do (read_r 1 m7) (\<lambda>bd m8.
     then_do (push_r (rec (Apply_rec ad bc pdd_add_op) m8)) (\<lambda>_ m9.
     then_do (read_r 1 m9) (\<lambda>n m10. mul_q_finish rec level_p ac bd n m10))))))))))"

definition mul_case :: "(call \<Rightarrow> manager \<Rightarrow> PDD result) \<Rightarrow> PDD \<Rightarrow> PDD \<Rightarrow> manager \<Rightarrow> (PDD \<times> nat) result" where
  "mul_case rec p q m =
     (let level_p = level m p; level_q = level m q in
      if is_val m q then distribute rec level_p p q pdd_mul_op m
      else if level_p = level_q then
        (if m_mod2_semantics m then mul_mod2_case rec level_p p q m
         else mul_q_case rec level_p p q m)
      else distribute rec level_p p q pdd_mul_op m)"

definition reduce_case :: "(call \<Rightarrow> manager \<Rightarrow> PDD result) \<Rightarrow> PDD \<Rightarrow> PDD \<Rightarrow> manager \<Rightarrow> (PDD \<times> nat) result" where
  "reduce_case rec p q m =
     (let level_p = level m p; level_q = level m q in
      if level_p > level_q then distribute rec level_p p q pdd_reduce_op m
      else then_do (rec (Reduce_on_match p q) m) (\<lambda>r m1. (Inr (r, 0), m1)))"

text \<open>
  \<^verbatim>\<open>e1->m_result = r\<close> writes through the pointer to the entry reserved before the
  computation; the entry is in the cache unless a \<^verbatim>\<open>try_gc\<close> of a nested \<^verbatim>\<open>apply\<close> has
  flushed the cache in between.
\<close>

definition set_result :: "PDD \<times> PDD \<times> nat \<Rightarrow> PDD \<Rightarrow> manager \<Rightarrow> manager" where
  "set_result k r m =
     (case m_op_cache m k of None \<Rightarrow> m | Some _ \<Rightarrow> m\<lparr>m_op_cache := (m_op_cache m)(k \<mapsto> r)\<rparr>)"

definition memoized :: "PDD \<times> PDD \<times> nat \<Rightarrow> (manager \<Rightarrow> (PDD \<times> nat) result) \<Rightarrow> manager \<Rightarrow> PDD result" where
  "memoized k compute m =
     (case m_op_cache m k of
        Some r \<Rightarrow> (Inr r, m)
      | None \<Rightarrow>
          then_do (compute (m\<lparr>m_op_cache := (m_op_cache m)(k \<mapsto> null_pdd)\<rparr>)) (\<lambda>rn m1.
            (Inr (fst rn), set_result k (fst rn) (pop (snd rn) m1))))"

definition apply_rec_body :: "(call \<Rightarrow> manager \<Rightarrow> PDD result) \<Rightarrow> PDD \<Rightarrow> PDD \<Rightarrow> nat \<Rightarrow> manager \<Rightarrow> PDD result" where
  "apply_rec_body rec p q op m =
     (case apply_rec_short p q op m of
        Done r \<Rightarrow> r
      | Continue p1 q1 \<Rightarrow>
          memoized (p1, q1, op)
            (if op = pdd_add_op then add_case rec p1 q1
             else if op = pdd_mul_op then mul_case rec p1 q1
             else reduce_case rec p1 q1) m)"

definition minus_rec_body :: "(call \<Rightarrow> manager \<Rightarrow> PDD result) \<Rightarrow> PDD \<Rightarrow> manager \<Rightarrow> PDD result" where
  "minus_rec_body rec a m =
     (if is_zero a then (Inr zero_pdd, m)
      else if is_val m a then imk_val (- val m a) m
      else memoized (a, a, pdd_minus_op) (\<lambda>m0.
        then_do (push_r (rec (Minus_rec (lo m0 a)) m0)) (\<lambda>_ m1.
        then_do (push_r (rec (Minus_rec (hi m1 a)) m1)) (\<lambda>_ m2.
        then_do (read_r 2 m2) (\<lambda>r2 m3.
        then_do (read_r 1 m3) (\<lambda>r1 m4.
        then_do (make_node (level m4 a) r2 r1 m4) (\<lambda>r m5. (Inr (r, 2), m5))))))) m)"

primrec lm_divides :: "nat \<Rightarrow> manager \<Rightarrow> PDD \<Rightarrow> PDD \<Rightarrow> bool option" where
  "lm_divides 0 m p q = None"
| "lm_divides (Suc n) m p q =
     (if is_val m p then Some True
      else if is_val m q then Some False
      else if level m p > level m q then Some False
      else if level m p = level m q then lm_divides n m (hi m p) (hi m q)
      else lm_divides n m p (hi m q))"

definition reduce_on_match_body :: "nat \<Rightarrow> (call \<Rightarrow> manager \<Rightarrow> PDD result) \<Rightarrow> PDD \<Rightarrow> PDD \<Rightarrow> manager \<Rightarrow> PDD result" where
  "reduce_on_match_body n rec a b m =
     (case lm_divides n m b a of
        None \<Rightarrow> (Inl out_of_fuel, m)
      | Some False \<Rightarrow> (Inr a, m)
      | Some True \<Rightarrow>
          then_do (rec (Lt_quotient b a) m) (\<lambda>q m1.
          then_do (rec (Apply q b pdd_mul_op) m1) (\<lambda>r m2.
          then_do (rec (Apply a r pdd_add_op) m2) (\<lambda>a1 m3.
            rec (Reduce_on_match a1 b) m3))))"

definition lt_quotient_body :: "(call \<Rightarrow> manager \<Rightarrow> PDD result) \<Rightarrow> PDD \<Rightarrow> PDD \<Rightarrow> manager \<Rightarrow> PDD result" where
  "lt_quotient_body rec p q m =
     (if is_val m p \<and> is_val m q then imk_val (- val m q / val m p) m
      else if \<not> is_val m p \<and> level m p = level m q then rec (Lt_quotient (hi m p) (hi m q)) m
      else then_do (rec (Lt_quotient p (hi m q)) m) (\<lambda>r m1.
             rec (Apply (m_var2pdd m1 ! var m1 q) r pdd_mul_op) m1))"

text \<open>
  The loop of \<^verbatim>\<open>apply\<close> and of \<^verbatim>\<open>minus\<close>: \<^verbatim>\<open>while (true) { try { return worker; }
  catch (mem_out) { try_gc(); if (!first) throw; first = false; } }\<close>.
\<close>

function retry_loop :: "bool \<Rightarrow> (manager \<Rightarrow> PDD result) \<Rightarrow> manager \<Rightarrow> PDD result" where
  "retry_loop first worker m =
     (case worker m of
        (Inr r, m1) \<Rightarrow> (Inr r, m1)
      | (Inl e, m1) \<Rightarrow>
          if e = mem_out then
            (case try_gc m1 of
               None \<Rightarrow> (Inl undefined_behaviour, m1)
             | Some m2 \<Rightarrow> if \<not> first then (Inl mem_out, m2) else retry_loop False worker m2)
          else (Inl e, m1))"
  by pat_completeness auto
termination
  by (relation "measure (\<lambda>(first, worker, m). if first then 1 else 0)") auto

definition scoped_push :: "(manager \<Rightarrow> PDD result) \<Rightarrow> manager \<Rightarrow> PDD result" where
  "scoped_push body m =
     (case body m of (r, m1) \<Rightarrow> (r, m1\<lparr>m_pdd_stack := take (length (m_pdd_stack m)) (m_pdd_stack m1)\<rparr>))"

definition apply_body :: "(call \<Rightarrow> manager \<Rightarrow> PDD result) \<Rightarrow> PDD \<Rightarrow> PDD \<Rightarrow> nat \<Rightarrow> manager \<Rightarrow> PDD result" where
  "apply_body rec arg1 arg2 op m = scoped_push (retry_loop True (rec (Apply_rec arg1 arg2 op))) m"

primrec run :: "nat \<Rightarrow> call \<Rightarrow> manager \<Rightarrow> PDD result" where
  "run 0 c m = (Inl out_of_fuel, m)"
| "run (Suc n) c m =
     (case c of
        Apply_rec p q op \<Rightarrow> apply_rec_body (run n) p q op m
      | Minus_rec a \<Rightarrow> minus_rec_body (run n) a m
      | Reduce_on_match a b \<Rightarrow> reduce_on_match_body n (run n) a b m
      | Lt_quotient p q \<Rightarrow> lt_quotient_body (run n) p q m
      | Apply a b op \<Rightarrow> apply_body (run n) a b op m)"

definition apply_rec :: "nat \<Rightarrow> PDD \<Rightarrow> PDD \<Rightarrow> nat \<Rightarrow> manager \<Rightarrow> PDD result" where
  "apply_rec fuel p q op = run fuel (Apply_rec p q op)"

definition minus_rec :: "nat \<Rightarrow> PDD \<Rightarrow> manager \<Rightarrow> PDD result" where
  "minus_rec fuel a = run fuel (Minus_rec a)"

definition reduce_on_match :: "nat \<Rightarrow> PDD \<Rightarrow> PDD \<Rightarrow> manager \<Rightarrow> PDD result" where
  "reduce_on_match fuel a b = run fuel (Reduce_on_match a b)"

definition lt_quotient :: "nat \<Rightarrow> PDD \<Rightarrow> PDD \<Rightarrow> manager \<Rightarrow> PDD result" where
  "lt_quotient fuel p q = run fuel (Lt_quotient p q)"

text \<open>\<^verbatim>\<open>pdd_manager::apply\<close> (\<open>apply\<close> is a keyword of the proof language).\<close>

definition apply_pdd :: "nat \<Rightarrow> PDD \<Rightarrow> PDD \<Rightarrow> nat \<Rightarrow> manager \<Rightarrow> PDD result" where
  "apply_pdd fuel arg1 arg2 op m = scoped_push (retry_loop True (apply_rec fuel arg1 arg2 op)) m"

section \<open>Handles and the arithmetic entry points\<close>

text \<open>
  Modelled from the spec: the handle class \<^verbatim>\<open>pdd\<close> is declared in \<^verbatim>\<open>dd_pdd.h\<close>. A
  handle is its root; constructing one increments the root's reference count, dropping
  one decrements it (section 4.4 of the specification), and assignment is the
  \<^verbatim>\<open>operator=\<close> of the source.
\<close>

definition pdd_of :: "PDD result \<Rightarrow> PDD result" where
  "pdd_of r = then_do r (\<lambda>p m. (Inr p, inc_ref p m))"

definition drop_handle :: "PDD \<Rightarrow> 'a result \<Rightarrow> 'a result" where
  "drop_handle h r = (case r of (x, m) \<Rightarrow> (x, dec_ref h m))"

definition assign_pdd :: "PDD \<Rightarrow> PDD \<Rightarrow> manager \<Rightarrow> manager" where
  "assign_pdd old new m = dec_ref old (inc_ref new m)"

definition add :: "nat \<Rightarrow> PDD \<Rightarrow> PDD \<Rightarrow> manager \<Rightarrow> PDD result" where
  "add fuel a b m = pdd_of (apply_pdd fuel a b pdd_add_op m)"

definition mul :: "nat \<Rightarrow> PDD \<Rightarrow> PDD \<Rightarrow> manager \<Rightarrow> PDD result" where
  "mul fuel a b m = pdd_of (apply_pdd fuel a b pdd_mul_op m)"

definition reduce :: "nat \<Rightarrow> PDD \<Rightarrow> PDD \<Rightarrow> manager \<Rightarrow> PDD result" where
  "reduce fuel a b m = pdd_of (apply_pdd fuel a b pdd_reduce_op m)"

definition mk_val :: "rat \<Rightarrow> manager \<Rightarrow> PDD result" where
  "mk_val r m = pdd_of (imk_val r m)"

definition zero :: "manager \<Rightarrow> PDD result" where
  "zero m = pdd_of (Inr zero_pdd, m)"

definition one :: "manager \<Rightarrow> PDD result" where
  "one m = pdd_of (Inr one_pdd, m)"

definition minus_pdd :: "nat \<Rightarrow> PDD \<Rightarrow> manager \<Rightarrow> PDD result" where
  "minus_pdd fuel a m =
     (if m_mod2_semantics m then pdd_of (Inr a, m)
      else pdd_of (scoped_push (retry_loop True (minus_rec fuel a)) m))"

definition sub :: "nat \<Rightarrow> PDD \<Rightarrow> PDD \<Rightarrow> manager \<Rightarrow> PDD result" where
  "sub fuel a b m =
     then_do (minus_pdd fuel b m) (\<lambda>mh m1.
       drop_handle mh (pdd_of (apply_pdd fuel a mh pdd_add_op m1)))"

section \<open>Monomials, leading terms, S-polynomials\<close>

primrec to_monomials :: "nat \<Rightarrow> manager \<Rightarrow> PDD \<Rightarrow> (rat \<times> nat list) list option" where
  "to_monomials 0 m p = None"
| "to_monomials (Suc n) m p =
     (if is_val m p then Some (if val m p \<noteq> 0 then [(val m p, [])] else [])
      else case to_monomials n m (hi m p) of
             None \<Rightarrow> None
           | Some mons \<Rightarrow>
               (case to_monomials n m (lo m p) of
                  None \<Rightarrow> None
                | Some mons_lo \<Rightarrow> Some (map (\<lambda>cv. (fst cv, snd cv @ [var m p])) mons @ mons_lo)))"

primrec lt_loop :: "nat \<Rightarrow> manager \<Rightarrow> PDD \<Rightarrow> PDD \<Rightarrow> bool option" where
  "lt_loop 0 m x y = None"
| "lt_loop (Suc n) m x y =
     (if is_val m x then Some (\<not> is_val m y \<or> val m x < val m y)
      else if is_val m y then Some False
      else if level m x = level m y then
        (if hi m x = hi m y then lt_loop n m (lo m x) (lo m y)
         else lt_loop n m (hi m x) (hi m y))
      else Some (level m x > level m y))"

definition lt :: "nat \<Rightarrow> manager \<Rightarrow> PDD \<Rightarrow> PDD \<Rightarrow> bool option" where
  "lt fuel m a b = (if a = b then Some False else lt_loop fuel m a b)"

text \<open>
  Modelled from the spec: the rationals are an external type with \<^verbatim>\<open>is_int\<close> and a
  \<^verbatim>\<open>gcd\<close> of integers (section 1 of the specification).
\<close>

definition is_int :: "rat \<Rightarrow> bool" where
  "is_int r = (of_int \<lfloor>r\<rfloor> = r)"

definition rat_gcd :: "rat \<Rightarrow> rat \<Rightarrow> rat" where
  "rat_gcd a b = of_int (gcd \<lfloor>a\<rfloor> \<lfloor>b\<rfloor>)"

text \<open>\<^verbatim>\<open>while (!is_val(y)) q.push_back(var(y)), y = hi(y);\<close>\<close>

primrec spine :: "nat \<Rightarrow> manager \<Rightarrow> PDD \<Rightarrow> nat list \<Rightarrow> (nat list \<times> PDD) option" where
  "spine 0 m y q = None"
| "spine (Suc n) m y q =
     (if is_val m y then Some (q, y) else spine n m (hi m y) (q @ [var m y]))"

definition reduce_coeffs :: "manager \<Rightarrow> rat \<Rightarrow> rat \<Rightarrow> rat \<times> rat" where
  "reduce_coeffs m pc qc =
     (if \<not> m_mod2_semantics m \<and> is_int pc \<and> is_int qc
      then (pc / rat_gcd pc qc, qc / rat_gcd pc qc)
      else (pc, qc))"

text \<open>
  \<^verbatim>\<open>common_factors\<close>: the outer \<open>None\<close> is a walk that did not end within the fuel,
  \<open>Some None\<close> is the result \<^verbatim>\<open>false\<close>, \<open>Some (Some (p, q, pc, qc))\<close> the result
  \<^verbatim>\<open>true\<close> with the four output parameters.
\<close>

primrec common_factors_loop :: "nat \<Rightarrow> manager \<Rightarrow> PDD \<Rightarrow> PDD \<Rightarrow> bool \<Rightarrow> nat list \<Rightarrow> nat list \<Rightarrow>
    (nat list \<times> nat list \<times> rat \<times> rat) option option" where
  "common_factors_loop 0 m x y has_common p q = None"
| "common_factors_loop (Suc n) m x y has_common p q =
     (if is_val m x \<or> is_val m y then
        (if \<not> has_common then Some None
         else case spine n m y q of
                None \<Rightarrow> None
              | Some (q1, y1) \<Rightarrow>
                  (case spine n m x p of
                     None \<Rightarrow> None
                   | Some (p1, x1) \<Rightarrow>
                       Some (Some (p1, q1, reduce_coeffs m (val m x1) (val m y1)))))
      else if level m x = level m y then common_factors_loop n m (hi m x) (hi m y) True p q
      else if level m x > level m y then common_factors_loop n m (hi m x) y has_common (p @ [var m x]) q
      else common_factors_loop n m x (hi m y) has_common p (q @ [var m y]))"

definition common_factors :: "nat \<Rightarrow> manager \<Rightarrow> PDD \<Rightarrow> PDD \<Rightarrow> (nat list \<times> nat list \<times> rat \<times> rat) option option" where
  "common_factors fuel m a b = common_factors_loop fuel m a b False [] []"

text \<open>\<^verbatim>\<open>for (unsigned i = q.size(); i-- > 0; ) r1 = mul(mk_var(q[i]), r1);\<close> over the reversed list.\<close>

primrec mul_vars :: "nat \<Rightarrow> nat list \<Rightarrow> PDD \<Rightarrow> manager \<Rightarrow> PDD result" where
  "mul_vars fuel [] r1 m = (Inr r1, m)"
| "mul_vars fuel (v # vs) r1 m =
     then_do (mk_var v m) (\<lambda>x m1.
     then_do (drop_handle x (mul fuel x r1 m1)) (\<lambda>t m2.
       mul_vars fuel vs t (dec_ref t (assign_pdd r1 t m2))))"

definition scaled :: "nat \<Rightarrow> PDD \<Rightarrow> rat \<Rightarrow> nat list \<Rightarrow> manager \<Rightarrow> PDD result" where
  "scaled fuel a c vs m =
     then_do (mk_val c m) (\<lambda>r0 m1.
     then_do (mul_vars fuel (rev vs) r0 m1) (\<lambda>r1 m2.
     then_do (mul fuel a r1 m2) (\<lambda>t m3. (Inr t, dec_ref t (assign_pdd r1 t m3)))))"

definition spoly :: "nat \<Rightarrow> PDD \<Rightarrow> PDD \<Rightarrow> nat list \<Rightarrow> nat list \<Rightarrow> rat \<Rightarrow> rat \<Rightarrow> manager \<Rightarrow> PDD result" where
  "spoly fuel a b p q pc qc m =
     then_do (scaled fuel a qc q m) (\<lambda>r1 m1.
     then_do (scaled fuel b (- pc) p m1) (\<lambda>r2 m2.
       drop_handle r1 (drop_handle r2 (add fuel r1 r2 m2))))"

definition try_spoly :: "nat \<Rightarrow> PDD \<Rightarrow> PDD \<Rightarrow> manager \<Rightarrow> PDD option result" where
  "try_spoly fuel a b m =
     (case common_factors fuel m a b of
        None \<Rightarrow> (Inl out_of_fuel, m)
      | Some None \<Rightarrow> (Inr None, m)
      | Some (Some (p, q, pc, qc)) \<Rightarrow>
          then_do (spoly fuel a b p q pc qc m) (\<lambda>r m1. (Inr (Some r), m1)))"

section \<open>Evaluating the model on concrete managers\<close>

text \<open>
  The pool of a fresh manager has more than a thousand blank slots. The lemmas below keep
  the blank part of the pool and the free list folded while a concrete run is evaluated:
  \<open>pool used N tail\<close> is the node vector with the slots \<open>used\<close> in front, blank slots up
  to \<open>N\<close> and \<open>tail\<close> behind them, \<open>descending k n\<close> is the free list \<open>n - 1, \<dots>, k\<close>.
\<close>

definition blank_slots :: "nat \<Rightarrow> nat \<Rightarrow> pdd_node list" where
  "blank_slots k n = map (\<lambda>i. empty_node\<lparr>m_index := i\<rparr>) [k..<n]"

definition descending :: "nat \<Rightarrow> nat \<Rightarrow> nat list" where
  "descending k n = rev [k..<n]"

definition pool :: "pdd_node list \<Rightarrow> nat \<Rightarrow> pdd_node list \<Rightarrow> pdd_node list" where
  "pool used N tail = used @ blank_slots (length used) N @ tail"

lemma alloc_loop_closed:
  "alloc_loop n m =
     m\<lparr>m_nodes := m_nodes m @ blank_slots (length (m_nodes m)) (length (m_nodes m) + n),
       m_free_nodes := m_free_nodes m @ [length (m_nodes m)..<length (m_nodes m) + n]\<rparr>"
proof (induction n arbitrary: m)
  case 0
  show ?case by (simp add: blank_slots_def)
next
  case (Suc n)
  show ?case by (simp add: Suc blank_slots_def upt_conv_Cons del: upt_Suc)
qed

lemma pool_nth_used: "i < length used \<Longrightarrow> pool used N tail ! i = used ! i"
  by (simp add: pool_def nth_append)

lemma pool_nth_blank:
  "length used \<le> i \<Longrightarrow> i < N \<Longrightarrow> pool used N tail ! i = empty_node\<lparr>m_index := i\<rparr>"
  by (simp add: pool_def nth_append blank_slots_def)

lemma pool_nth_tail: "N \<le> i \<Longrightarrow> length used \<le> N \<Longrightarrow> pool used N tail ! i = tail ! (i - N)"
  by (simp add: pool_def nth_append blank_slots_def)

lemma pool_update_fresh:
  "i = length used \<Longrightarrow> i < N \<Longrightarrow> (pool used N tail)[i := x] = pool (used @ [x]) N tail"
  by (simp add: pool_def blank_slots_def list_update_append upt_conv_Cons)

lemma pool_update_used: "i < length used \<Longrightarrow> (pool used N tail)[i := x] = pool (used[i := x]) N tail"
  by (simp add: pool_def list_update_append)

lemma pool_length: "length used \<le> N \<Longrightarrow> length (pool used N tail) = N + length tail"
  by (simp add: pool_def blank_slots_def)

lemma pool_append: "pool used N tail @ xs = pool used N (tail @ xs)"
  by (simp add: pool_def)

lemma descending_last: "k < n \<Longrightarrow> last (descending k n) = k"
  by (simp add: descending_def last_rev upt_conv_Cons)

lemma descending_butlast: "butlast (descending k n) = descending (Suc k) n"
  by (cases "k < n") (simp_all add: descending_def butlast_rev upt_conv_Cons)

lemma descending_empty: "(descending k n = []) = (n \<le> k)"
  by (auto simp: descending_def)

lemma alloc_free_nodes_blank:
  "m_nodes m = [] \<Longrightarrow> m_free_nodes m = [] \<Longrightarrow>
   alloc_free_nodes n m = m\<lparr>m_nodes := pool [] n [], m_free_nodes := descending 0 n\<rparr>"
  by (simp add: alloc_free_nodes_def alloc_loop_closed pool_def descending_def Let_def)

lemma then_do_Inr: "then_do (Inr x, m) f = f x m"
  by (simp add: then_do_def)

lemma then_do_Inl: "then_do (Inl e, m) f = (Inl e, m)"
  by (simp add: then_do_def)

lemma then_do_weak_cong: "r = r' \<Longrightarrow> then_do r f = then_do r' f"
  by simp

lemma Suc_Suc_0: "Suc (Suc 0) = 2"
  by simp

lemma run_numeral:
  "run (numeral k) c m =
     (case c of
        Apply_rec p q op \<Rightarrow> apply_rec_body (run (pred_numeral k)) p q op m
      | Minus_rec a \<Rightarrow> minus_rec_body (run (pred_numeral k)) a m
      | Reduce_on_match a b \<Rightarrow> reduce_on_match_body (pred_numeral k) (run (pred_numeral k)) a b m
      | Lt_quotient p q \<Rightarrow> lt_quotient_body (run (pred_numeral k)) p q m
      | Apply a b op \<Rightarrow> apply_body (run (pred_numeral k)) a b op m)"
  by (simp add: numeral_eq_Suc)

lemma add_op_nodes_numeral:
  "add_op_nodes (numeral k) m =
     add_op_nodes (pred_numeral k) (m\<lparr>m_nodes := m_nodes m @
         [(mk_node 0 0 0)\<lparr>m_refcount := max_rc, m_index := length (m_nodes m)\<rparr>]\<rparr>)"
  by (simp add: numeral_eq_Suc)

lemma reserve_loop_numeral:
  "reserve_loop (numeral k) m =
     (let v = length (m_var2level m) in
      then_do (make_node v zero_pdd one_pdd m) (\<lambda>p m1.
        reserve_loop (pred_numeral k) ((pin p (m1\<lparr>m_var2pdd := m_var2pdd m1 @ [p]\<rparr>))
                          \<lparr>m_var2level := m_var2level m1 @ [v],
                            m_level2var := m_level2var m1 @ [v]\<rparr>)))"
  by (simp add: numeral_eq_Suc)

lemma to_monomials_numeral:
  "to_monomials (numeral k) m p =
     (if is_val m p then Some (if val m p \<noteq> 0 then [(val m p, [])] else [])
      else case to_monomials (pred_numeral k) m (hi m p) of
             None \<Rightarrow> None
           | Some mons \<Rightarrow>
               (case to_monomials (pred_numeral k) m (lo m p) of
                  None \<Rightarrow> None
                | Some mons_lo \<Rightarrow> Some (map (\<lambda>cv. (fst cv, snd cv @ [var m p])) mons @ mons_lo)))"
  by (simp add: numeral_eq_Suc)

lemma lm_divides_numeral:
  "lm_divides (numeral k) m p q =
     (if is_val m p then Some True
      else if is_val m q then Some False
      else if level m p > level m q then Some False
      else if level m p = level m q then lm_divides (pred_numeral k) m (hi m p) (hi m q)
      else lm_divides (pred_numeral k) m p (hi m q))"
  by (simp add: numeral_eq_Suc)

lemma lt_loop_numeral:
  "lt_loop (numeral k) m x y =
     (if is_val m x then Some (\<not> is_val m y \<or> val m x < val m y)
      else if is_val m y then Some False
      else if level m x = level m y then
        (if hi m x = hi m y then lt_loop (pred_numeral k) m (lo m x) (lo m y)
         else lt_loop (pred_numeral k) m (hi m x) (hi m y))
      else Some (level m x > level m y))"
  by (simp add: numeral_eq_Suc)

lemma spine_numeral:
  "spine (numeral k) m y q =
     (if is_val m y then Some (q, y) else spine (pred_numeral k) m (hi m y) (q @ [var m y]))"
  by (simp add: numeral_eq_Suc)

lemma common_factors_loop_numeral:
  "common_factors_loop (numeral k) m x y has_common p q =
     (if is_val m x \<or> is_val m y then
        (if \<not> has_common then Some None
         else case spine (pred_numeral k) m y q of
                None \<Rightarrow> None
              | Some (q1, y1) \<Rightarrow>
                  (case spine (pred_numeral k) m x p of
                     None \<Rightarrow> None
                   | Some (p1, x1) \<Rightarrow>
                       Some (Some (p1, q1, reduce_coeffs m (val m x1) (val m y1)))))
      else if level m x = level m y then
        common_factors_loop (pred_numeral k) m (hi m x) (hi m y) True p q
      else if level m x > level m y then
        common_factors_loop (pred_numeral k) m (hi m x) y has_common (p @ [var m x]) q
      else common_factors_loop (pred_numeral k) m x (hi m y) has_common p (q @ [var m y]))"
  by (simp add: numeral_eq_Suc)

lemmas node_defs = level_def lo_def hi_def is_val_def node_is_val_def is_zero_def is_one_def
  val_def var_def zero_pdd_def one_pdd_def null_pdd_def max_rc_def pdd_add_op_def pdd_mul_op_def
  pdd_reduce_op_def pdd_minus_op_def pdd_no_op_def mk_node_def mk_value_node_def empty_node_def
  node_key_def inc_ref_def dec_ref_def push_def pop_def read_def

lemmas store_defs = insert_node_def insert_if_not_there2_def take_free_slot_def make_node_def
  init_value_def imk_val_def pin_def reserve_var_def mk_var_def blank_manager_def init_manager_def
  pdd_manager_def alloc_free_nodes_blank set_max_num_nodes_def set_mod2_semantics_def

lemmas eval_defs = read_r_def push_r_def canonical_order_def apply_rec_short_def add_lo_def
  add_case_def distribute_def mul_mod2_case_def mul_q_finish_def mul_q_case_def mul_case_def
  reduce_case_def set_result_def memoized_def apply_rec_body_def minus_rec_body_def
  reduce_on_match_body_def lt_quotient_body_def scoped_push_def apply_body_def apply_rec_def
  minus_rec_def apply_pdd_def pdd_of_def drop_handle_def assign_pdd_def add_def mul_def reduce_def
  mk_val_def zero_def one_def minus_pdd_def sub_def

lemmas pool_simps = pool_nth_used pool_nth_blank pool_nth_tail pool_update_fresh pool_update_used
  pool_length pool_append descending_last descending_butlast descending_empty

lemmas eval_simps = node_defs store_defs eval_defs pool_simps then_do_Inr then_do_Inl Let_def
  upt_conv_Cons Suc_Suc_0 run_numeral add_op_nodes_numeral reserve_loop_numeral
  to_monomials_numeral lm_divides_numeral lt_loop_numeral spine_numeral common_factors_loop_numeral

section \<open>Seed scenario 1: the square of \<open>v0 + 1\<close>\<close>

definition square_scenario :: "(manager \<Rightarrow> manager) \<Rightarrow> nat \<Rightarrow> (rat \<times> nat list) list option result" where
  "square_scenario mode fuel =
     then_do (pdd_manager 4) (\<lambda>_ m.
     then_do (mk_var 0 (mode m)) (\<lambda>v0 m1.
     then_do (one m1) (\<lambda>i m2.
     then_do (add fuel v0 i m2) (\<lambda>p m3.
     then_do (mul fuel p p m3) (\<lambda>r m4.
       (Inr (to_monomials fuel m4 r), m4))))))"

text \<open>
  Claim C1. In a fresh manager with four variables and \<^verbatim>\<open>mod2_semantics\<close> off, with
  \<open>p = add(mk_var(0), one())\<close>, the monomials of \<open>mul(p, p)\<close> are \<open>v0*v0 + 2*v0 + 1\<close>, for
  every fuel from 3 on. With \<^verbatim>\<open>mod2_semantics\<close> on, the same product does not denote
  \<open>v0*v0 + 1\<close>: the mod-2 arm of \<^verbatim>\<open>apply_rec\<close> pushes one node and then reads
  \<^verbatim>\<open>read(3)\<close>, which is beyond the evaluation stack of a top-level call.
\<close>

theorem square_q_mode_and_mod2:
  "fst (square_scenario id (Suc (Suc (Suc n)))) = Inr (Some [(1, [0, 0]), (2, [0]), (1, [])]) \<and>
   fst (square_scenario set_mod2_semantics (Suc (Suc n))) = Inl undefined_behaviour"
  unfolding square_scenario_def
  by (simp add: eval_simps cong: then_do_weak_cong)

section \<open>Commutativity of \<^verbatim>\<open>mul\<close> in a mod-2 manager\<close>

definition mul_both_orders :: "nat \<Rightarrow> ((error + PDD) \<times> (error + PDD)) result" where
  "mul_both_orders fuel =
     then_do (pdd_manager 4) (\<lambda>_ m.
     then_do (mk_var 0 (set_mod2_semantics m)) (\<lambda>v0 m1.
     then_do (one m1) (\<lambda>i m2.
     then_do (add fuel v0 i m2) (\<lambda>p m3.
       (Inr (fst (mul fuel v0 p m3), fst (mul fuel p v0 m3)), m3)))))"

text \<open>
  Claim C9. In a mod-2 manager, for \<open>a = v0\<close> and \<open>b = v0 + 1\<close>, neither \<open>mul(a, b)\<close> nor
  \<open>mul(b, a)\<close> returns a node: both are at equal levels, take the mod-2 arm of
  \<^verbatim>\<open>apply_rec\<close> and read \<^verbatim>\<open>read(3)\<close> beyond the evaluation stack.
\<close>

theorem mul_mod2_equal_levels_reads_out_of_range:
  "fst (mul_both_orders (Suc (Suc n))) = Inr (Inl undefined_behaviour, Inl undefined_behaviour)"
  unfolding mul_both_orders_def
  by (simp add: eval_simps cong: then_do_weak_cong)

section \<open>Reordering the variables\<close>

text \<open>
  Claim C7. After \<^verbatim>\<open>set_level2var\<close> with the permutation \<open>[1, 0]\<close> on a fresh manager
  with two variables, \<^verbatim>\<open>var2level[0]\<close> is 1 while the pinned node \<^verbatim>\<open>var2pdd[0]\<close> is
  still at level 0, and the variable it stands for is now 1.
\<close>

theorem set_level2var_leaves_var2pdd:
  "case pdd_manager 2 of (r, m) \<Rightarrow>
     r = Inr () \<and>
     m_var2level (set_level2var [1, 0] m) ! 0 = 1 \<and>
     level (set_level2var [1, 0] m) (m_var2pdd (set_level2var [1, 0] m) ! 0) = 0 \<and>
     var (set_level2var [1, 0] m) (m_var2pdd (set_level2var [1, 0] m) ! 0) = 1"
  by (simp add: eval_simps set_level2var_def set_level2var_step_def cong: then_do_weak_cong)

section \<open>Seed scenario 3: an S-polynomial and \<^verbatim>\<open>lt\<close>\<close>

definition spoly_scenario :: "nat \<Rightarrow>
    ((rat \<times> nat list) list option \<times> (rat \<times> nat list) list option \<times> bool option \<times> bool option) result" where
  "spoly_scenario fuel =
     then_do (pdd_manager 4) (\<lambda>_ m.
     then_do (mk_var 0 m) (\<lambda>v0 m.
     then_do (mk_var 1 m) (\<lambda>v1 m.
     then_do (mk_var 2 m) (\<lambda>v2 m.
     then_do (one m) (\<lambda>i m.
     then_do (mul fuel v2 v1 m) (\<lambda>t m.
     then_do (add fuel t v0 m) (\<lambda>a m.
     then_do (mul fuel v2 v0 m) (\<lambda>u m.
     then_do (add fuel u i m) (\<lambda>b m.
     then_do (try_spoly fuel a b m) (\<lambda>s m.
     then_do (mul fuel t v0 m) (\<lambda>lcm m.
       (Inr (to_monomials fuel m (the s), to_monomials fuel m lcm,
             lt fuel m (the s) lcm, lt fuel m lcm (the s)), m))))))))))))"

text \<open>
  Claim C3. For \<open>a = v2*v1 + v0\<close> and \<open>b = v2*v0 + 1\<close>, \<^verbatim>\<open>try_spoly\<close> returns
  \<open>r = - v1 + v0*v0\<close>, and the least common multiple of the leading monomials is
  \<open>v2*v1*v0\<close>. The joint leading term is cancelled, but \<^verbatim>\<open>lt(r, lcm)\<close> is false and
  \<^verbatim>\<open>lt(lcm, r)\<close> is true: at unequal levels \<^verbatim>\<open>lt\<close> returns \<^verbatim>\<open>level(x) > level(y)\<close>.
\<close>

theorem spoly_result_not_lt_lcm:
  "fst (spoly_scenario (Suc (Suc (Suc (Suc (Suc (Suc (Suc (Suc n))))))))) =
     Inr (Some [(- 1, [1]), (1, [0, 0])], Some [(1, [0, 1, 2])], Some False, Some True)"
  unfolding spoly_scenario_def
  by (simp add: eval_simps try_spoly_def spoly_def scaled_def common_factors_def reduce_coeffs_def
      is_int_def rat_gcd_def lt_def cong: then_do_weak_cong)

section \<open>Out of memory: one retry after \<^verbatim>\<open>try_gc\<close>\<close>

text \<open>
  The behaviour the specification describes for \<^verbatim>\<open>apply\<close> and \<^verbatim>\<open>minus\<close>, written without
  the loop: run the worker; if it raises out-of-memory call \<^verbatim>\<open>try_gc\<close> and run the worker
  once more; an out-of-memory of the second run is propagated (after another \<^verbatim>\<open>try_gc\<close>);
  any other failure is propagated as it is.
\<close>

definition retry_once :: "(manager \<Rightarrow> PDD result) \<Rightarrow> manager \<Rightarrow> PDD result" where
  "retry_once worker m =
     (case worker m of
        (Inr r, m1) \<Rightarrow> (Inr r, m1)
      | (Inl e, m1) \<Rightarrow>
          if e \<noteq> mem_out then (Inl e, m1)
          else (case try_gc m1 of
                  None \<Rightarrow> (Inl undefined_behaviour, m1)
                | Some m2 \<Rightarrow>
                    (case worker m2 of
                       (Inr r, m3) \<Rightarrow> (Inr r, m3)
                     | (Inl e2, m3) \<Rightarrow>
                         if e2 \<noteq> mem_out then (Inl e2, m3)
                         else (case try_gc m3 of
                                 None \<Rightarrow> (Inl undefined_behaviour, m3)
                               | Some m4 \<Rightarrow> (Inl mem_out, m4)))))"

lemma retry_loop_retry_once: "retry_loop True worker m = retry_once worker m"
  by (simp add: retry_once_def split: prod.splits sum.splits option.splits)

text \<open>
  Claim C5. \<^verbatim>\<open>apply\<close> (the entry point of \<^verbatim>\<open>add\<close>, \<^verbatim>\<open>sub\<close>, \<^verbatim>\<open>mul\<close> and \<^verbatim>\<open>reduce\<close>) and
  \<^verbatim>\<open>minus\<close> run their recursive worker, and when it raises out-of-memory they call
  \<^verbatim>\<open>try_gc\<close> and run it exactly once more; an out-of-memory of the second run is
  propagated, and no other failure is caught.
\<close>

theorem entry_points_retry_once:
  "apply_pdd fuel a b op m = scoped_push (retry_once (apply_rec fuel a b op)) m \<and>
   add fuel a b m = pdd_of (scoped_push (retry_once (apply_rec fuel a b pdd_add_op)) m) \<and>
   mul fuel a b m = pdd_of (scoped_push (retry_once (apply_rec fuel a b pdd_mul_op)) m) \<and>
   reduce fuel a b m = pdd_of (scoped_push (retry_once (apply_rec fuel a b pdd_reduce_op)) m) \<and>
   minus_pdd fuel a m =
     (if m_mod2_semantics m then pdd_of (Inr a, m)
      else pdd_of (scoped_push (retry_once (minus_rec fuel a)) m)) \<and>
   sub fuel a b m =
     then_do (minus_pdd fuel b m) (\<lambda>mh m1.
       drop_handle mh (pdd_of (scoped_push (retry_once (apply_rec fuel a mh pdd_add_op)) m1)))"
  by (simp add: apply_pdd_def add_def mul_def reduce_def minus_pdd_def sub_def scoped_push_def
      retry_loop_retry_once del: retry_loop.simps)

text \<open>
  The retry at work, in a manager with a pool of five slots and two variables: the node
  \<open>v0 + 1\<close> takes the last free slot and its handle is dropped, the ceiling is set below
  the pool size. The worker for \<open>v1 + 1\<close> then raises out-of-memory, although its
  garbage collection has freed the slot of \<open>v0 + 1\<close>; \<^verbatim>\<open>apply\<close> retries and returns slot 4.
\<close>

lemmas gc_defs = gc_def try_gc_def slots_down_def mark_child_def free_slot_def set_internal_def
  keep_pending_def

definition retry_scenario :: "nat \<Rightarrow> ((error + PDD) \<times> (error + PDD)) result" where
  "retry_scenario fuel =
     then_do (init_manager 5 2) (\<lambda>_ m.
     then_do (mk_var 0 m) (\<lambda>v0 m.
     then_do (mk_var 1 m) (\<lambda>v1 m.
     then_do (one m) (\<lambda>i m.
     then_do (add fuel v0 i m) (\<lambda>p m.
     then_do (Inr (), set_max_num_nodes 5 (dec_ref p m)) (\<lambda>_ m.
       (Inr (fst (apply_rec fuel v1 i pdd_add_op m), fst (apply_pdd fuel v1 i pdd_add_op m)), m)))))))"

lemma retry_scenario_retries: "fst (retry_scenario (Suc (Suc n))) = Inr (Inl mem_out, Inr 4)"
  unfolding retry_scenario_def
  by (simp add: eval_simps gc_defs cong: then_do_weak_cong)

section \<open>\<^verbatim>\<open>insert_node\<close> without a free slot\<close>

lemma free_slot_frame: "length (m_nodes (free_slot i m)) = length (m_nodes m) \<and>
   m_max_num_pdd_nodes (free_slot i m) = m_max_num_pdd_nodes m \<and> m_values (free_slot i m) = m_values m
   \<and> m_level2var (free_slot i m) = m_level2var m"
  by (simp add: free_slot_def)

lemma gc_sweep_frame:
  "gc_sweep reach is m = Some m' \<Longrightarrow>
   length (m_nodes m') = length (m_nodes m) \<and> m_max_num_pdd_nodes m' = m_max_num_pdd_nodes m \<and>
   m_values m' = m_values m \<and> m_level2var m' = m_level2var m"
proof (induction "is" arbitrary: m)
  case Nil
  then show ?case by simp
next
  case (Cons i "is")
  then show ?case
    by (auto simp: free_slot_frame split: if_splits option.splits)
qed

lemma gc_frame:
  "gc m = Some m' \<Longrightarrow>
   length (m_nodes m') = length (m_nodes m) \<and> m_max_num_pdd_nodes m' = m_max_num_pdd_nodes m \<and>
   m_values m' = m_values m \<and> m_level2var m' = m_level2var m"
  by (auto simp: gc_def Let_def split: option.splits dest!: gc_sweep_frame)

text \<open>
  A node is structurally new when the unique table has no entry for its content, or only
  an entry that was never given a slot (index 0).
\<close>

definition structurally_new :: "pdd_node \<Rightarrow> manager \<Rightarrow> bool" where
  "structurally_new n m = (m_index n = 0 \<and> (case m_node_table m (node_key n) of None \<Rightarrow> True | Some i \<Rightarrow> i = 0))"

text \<open>
  What \<^verbatim>\<open>insert_node\<close> does after the garbage collection when the free list was empty:
  raise out-of-memory if the pool is already larger than the ceiling, otherwise grow the
  pool by half its size and take a slot.
\<close>

definition grow_or_raise :: "pdd_node \<Rightarrow> manager \<Rightarrow> PDD result" where
  "grow_or_raise n m =
     (if length (m_nodes m) > m_max_num_pdd_nodes m then (Inl mem_out, m)
      else take_free_slot n (alloc_free_nodes (length (m_nodes m) div 2) m))"

lemma insert_if_not_there2_frame:
  "m_nodes (insert_if_not_there2 n m) = m_nodes m \<and> m_free_nodes (insert_if_not_there2 n m) = m_free_nodes m
   \<and> m_max_num_pdd_nodes (insert_if_not_there2 n m) = m_max_num_pdd_nodes m
   \<and> m_disable_gc (insert_if_not_there2 n m) = m_disable_gc m"
  by (simp add: insert_if_not_there2_def split: option.splits)

lemma structurally_new_lookup:
  "structurally_new n m \<Longrightarrow> the (m_node_table (insert_if_not_there2 n m) (node_key n)) = 0"
  by (auto simp: structurally_new_def insert_if_not_there2_def split: option.splits)

lemma alloc_free_nodes_frame:
  "length (m_nodes (alloc_free_nodes k m)) = length (m_nodes m) + k \<and>
   m_free_nodes (alloc_free_nodes k m) = rev (m_free_nodes m @ [length (m_nodes m)..<length (m_nodes m) + k])"
  by (simp add: alloc_free_nodes_def alloc_loop_closed Let_def blank_slots_def)

lemma grow_or_raise_grows:
  assumes "length (m_nodes m) \<le> m_max_num_pdd_nodes m" "2 \<le> length (m_nodes m)"
  shows "\<exists>r. fst (grow_or_raise n m) = Inr r \<and>
     length (m_nodes (snd (grow_or_raise n m))) = length (m_nodes m) + length (m_nodes m) div 2"
proof -
  let ?m1 = "alloc_free_nodes (length (m_nodes m) div 2) m"
  have "length (m_nodes m) div 2 \<noteq> 0" using assms(2) by simp
  then have "m_free_nodes ?m1 \<noteq> []" by (simp add: alloc_free_nodes_frame)
  then show ?thesis using assms(1)
    by (simp add: grow_or_raise_def take_free_slot_def Let_def alloc_free_nodes_frame)
qed

lemma take_free_slot_max: "m_max_num_pdd_nodes (snd (take_free_slot n m)) = m_max_num_pdd_nodes m"
  by (simp add: take_free_slot_def Let_def)

lemma alloc_free_nodes_max: "m_max_num_pdd_nodes (alloc_free_nodes k m) = m_max_num_pdd_nodes m"
  by (simp add: alloc_free_nodes_def alloc_loop_closed Let_def)

lemma insert_node_max: "m_max_num_pdd_nodes (snd (insert_node n m)) = m_max_num_pdd_nodes m"
  by (auto simp: insert_node_def Let_def insert_if_not_there2_frame take_free_slot_max
      alloc_free_nodes_max split: option.splits dest!: gc_frame)

lemma init_value_max: "m_max_num_pdd_nodes (snd (init_value r m)) = m_max_num_pdd_nodes m"
  using insert_node_max[of "mk_value_node (length (m_values m))" "m\<lparr>m_values := m_values m @ [r], m_freeze_value := r\<rparr>"]
    insert_node_max[of "mk_value_node (last (m_free_values m))"
      "m\<lparr>m_free_values := butlast (m_free_values m), m_values := (m_values m)[last (m_free_values m) := r], m_freeze_value := r\<rparr>"]
  by (auto simp: init_value_def Let_def split: prod.splits sum.splits)

lemma make_node_max: "m_max_num_pdd_nodes (snd (make_node lvl l h m)) = m_max_num_pdd_nodes m"
  using insert_node_max[of "mk_node lvl l h" "m\<lparr>m_is_new_node := False\<rparr>"]
  by (simp add: make_node_def Let_def)

lemma reserve_loop_max: "m_max_num_pdd_nodes (snd (reserve_loop k m)) = m_max_num_pdd_nodes m"
proof (induction k arbitrary: m)
  case 0
  show ?case by simp
next
  case (Suc k)
  show ?case
    using make_node_max[of "length (m_var2level m)" zero_pdd one_pdd m]
    by (auto simp: Let_def then_do_def Suc pin_def split: prod.splits sum.splits)
qed

lemma reserve_vars_max: "m_max_num_pdd_nodes (snd (reserve_vars vs m)) = m_max_num_pdd_nodes m"
proof (induction vs arbitrary: m)
  case Nil
  show ?case by simp
next
  case (Cons v vs)
  show ?case
    using reserve_loop_max[of "Suc v - length (m_var2level m)" m]
    by (auto simp: then_do_def Cons reserve_var_def split: prod.splits sum.splits)
qed

lemma add_op_nodes_max: "m_max_num_pdd_nodes (add_op_nodes k m) = m_max_num_pdd_nodes m"
  by (induction k arbitrary: m) simp_all

lemma pdd_manager_default_ceiling: "m_max_num_pdd_nodes (snd (pdd_manager num_vars)) = 2 ^ 24"
proof -
  let ?m0 = "alloc_free_nodes (1024 + num_vars) blank_manager"
  have 0: "m_max_num_pdd_nodes ?m0 = 2 ^ 24" by (simp add: alloc_free_nodes_max blank_manager_def)
  have 1: "m_max_num_pdd_nodes (snd (init_value 0 ?m0)) = 2 ^ 24" by (simp add: init_value_max 0)
  show ?thesis
    using 1 init_value_max[of 1 "snd (init_value 0 ?m0)"]
      reserve_vars_max[of "[0..<num_vars]"]
    by (auto simp: pdd_manager_def init_manager_def Let_def then_do_def add_op_nodes_max pin_def
        split: prod.splits sum.splits)
qed

text \<open>
  Claim C6, as amended. When \<^verbatim>\<open>insert_node\<close> is called with a structurally new node and
  the free list is empty, it runs the garbage collection unless \<^verbatim>\<open>disable_gc\<close> is set.
  Then, whether or not the collection freed a slot, it raises out-of-memory if the pool
  already has more than \<^verbatim>\<open>max_num_nodes\<close> nodes, and otherwise grows the pool by half
  its size: the test is on the size before the growth, so the pool can grow past the
  ceiling. The ceiling of a fresh manager is \<open>2^24\<close>.
\<close>

theorem insert_node_without_free_slot:
  assumes "structurally_new n m" and "m_free_nodes m = []"
    and "m_disable_gc m \<or> gc (insert_if_not_there2 n m) \<noteq> None"
  shows "insert_node n m =
           grow_or_raise n (if m_disable_gc m then insert_if_not_there2 n m
                            else insert_if_not_there2 n (the (gc (insert_if_not_there2 n m)))) \<and>
         (m_max_num_pdd_nodes m < length (m_nodes m) \<longrightarrow> fst (insert_node n m) = Inl mem_out) \<and>
         (length (m_nodes m) \<le> m_max_num_pdd_nodes m \<longrightarrow> 2 \<le> length (m_nodes m) \<longrightarrow>
           (\<exists>r. fst (insert_node n m) = Inr r) \<and>
           length (m_nodes (snd (insert_node n m))) = length (m_nodes m) + length (m_nodes m) div 2) \<and>
         m_max_num_pdd_nodes (snd (pdd_manager num_vars)) = 2 ^ 24"
proof -
  let ?m3 = "if m_disable_gc m then insert_if_not_there2 n m
             else insert_if_not_there2 n (the (gc (insert_if_not_there2 n m)))"
  have eq: "insert_node n m = grow_or_raise n ?m3"
    using assms
    by (auto simp: insert_node_def Let_def structurally_new_lookup insert_if_not_there2_frame
        grow_or_raise_def)
  have "length (m_nodes ?m3) = length (m_nodes m) \<and> m_max_num_pdd_nodes ?m3 = m_max_num_pdd_nodes m"
    using assms(3) gc_frame[of "insert_if_not_there2 n m"]
    by (auto simp: insert_if_not_there2_frame)
  then have len: "length (m_nodes ?m3) = length (m_nodes m)"
    and mx: "m_max_num_pdd_nodes ?m3 = m_max_num_pdd_nodes m" by simp_all
  have raise: "m_max_num_pdd_nodes m < length (m_nodes m) \<longrightarrow> fst (insert_node n m) = Inl mem_out"
    unfolding eq using len mx by (simp add: grow_or_raise_def)
  have grow: "length (m_nodes m) \<le> m_max_num_pdd_nodes m \<longrightarrow> 2 \<le> length (m_nodes m) \<longrightarrow>
           (\<exists>r. fst (insert_node n m) = Inr r) \<and>
           length (m_nodes (snd (insert_node n m))) = length (m_nodes m) + length (m_nodes m) div 2"
    unfolding eq using grow_or_raise_grows[of ?m3 n] len mx by auto
  show ?thesis
    using eq raise grow pdd_manager_default_ceiling by blast
qed

text \<open>
  A manager with a pool of four slots and two variables: the two constants and the two
  variable nodes fill the pool, and all of its eleven nodes are pinned.
\<close>

definition full_manager :: "nat \<Rightarrow> manager" where
  "full_manager limit = set_max_num_nodes limit (snd (init_manager 4 2))"

lemma full_manager_facts:
  "structurally_new (mk_node 1 1 1) (full_manager c) \<and> m_free_nodes (full_manager c) = [] \<and>
   length (m_nodes (full_manager c)) = 11 \<and> m_max_num_pdd_nodes (full_manager c) = c \<and>
   \<not> m_disable_gc (full_manager c) \<and>
   map_option m_free_nodes (gc (insert_if_not_there2 (mk_node 1 1 1) (full_manager c))) = Some []"
  unfolding full_manager_def structurally_new_def
  by (simp add: eval_simps gc_defs cong: then_do_weak_cong)

theorem insert_node_without_free_slot_witness:
  "structurally_new (mk_node 1 1 1) (full_manager 20) \<and> m_free_nodes (full_manager 20) = [] \<and>
   gc (insert_if_not_there2 (mk_node 1 1 1) (full_manager 20)) \<noteq> None \<and>
   (\<exists>r. fst (insert_node (mk_node 1 1 1) (full_manager 20)) = Inr r) \<and>
   length (m_nodes (snd (insert_node (mk_node 1 1 1) (full_manager 20)))) = 16"
proof -
  let ?n = "mk_node 1 1 1" and ?m = "full_manager 20"
  have h1: "structurally_new ?n ?m" and h2: "m_free_nodes ?m = []"
    and h3: "gc (insert_if_not_there2 ?n ?m) \<noteq> None"
    and len: "length (m_nodes ?m) = 11" and mx: "m_max_num_pdd_nodes ?m = 20"
    using full_manager_facts[of 20] by auto
  have h3': "m_disable_gc ?m \<or> gc (insert_if_not_there2 ?n ?m) \<noteq> None"
    using h3 by simp
  have "length (m_nodes ?m) \<le> m_max_num_pdd_nodes ?m \<longrightarrow> 2 \<le> length (m_nodes ?m) \<longrightarrow>
          (\<exists>r. fst (insert_node ?n ?m) = Inr r) \<and>
          length (m_nodes (snd (insert_node ?n ?m))) = length (m_nodes ?m) + length (m_nodes ?m) div 2"
    using insert_node_without_free_slot[OF h1 h2 h3', of 0] by blast
  then have "(\<exists>r. fst (insert_node ?n ?m) = Inr r) \<and>
          length (m_nodes (snd (insert_node ?n ?m))) = 16"
    by (simp add: len mx)
  then show ?thesis using h1 h2 h3 by blast
qed

text \<open>
  Claim C6 as stated fails: with the ceiling at 11, the free list is empty before and
  after the garbage collection and growing the pool of 11 nodes by half exceeds the
  ceiling, yet \<^verbatim>\<open>insert_node\<close> raises nothing and returns slot 11 of a pool of 16 nodes.
\<close>

theorem insert_node_grows_beyond_ceiling:
  "m_free_nodes (full_manager 11) = [] \<and>
   map_option m_free_nodes (gc (insert_if_not_there2 (mk_node 1 1 1) (full_manager 11))) = Some [] \<and>
   m_max_num_pdd_nodes (full_manager 11) = 11 \<and>
   m_max_num_pdd_nodes (full_manager 11)
     < length (m_nodes (full_manager 11)) + length (m_nodes (full_manager 11)) div 2 \<and>
   fst (insert_node (mk_node 1 1 1) (full_manager 11)) = Inr 11 \<and>
   length (m_nodes (snd (insert_node (mk_node 1 1 1) (full_manager 11)))) = 16"
  unfolding full_manager_def
  by (simp add: eval_simps gc_defs alloc_free_nodes_def alloc_loop_closed blank_slots_def cong: then_do_weak_cong)

section \<open>The coefficients returned by \<^verbatim>\<open>common_factors\<close>\<close>

text \<open>
  The leading coefficient of a polynomial is the value at the end of its \<open>hi\<close> spine.
\<close>

definition leading_coeff :: "nat \<Rightarrow> manager \<Rightarrow> PDD \<Rightarrow> rat option" where
  "leading_coeff fuel m a = map_option (\<lambda>vx. val m (snd vx)) (spine fuel m a [])"

lemma spine_acc: "map_option snd (spine n m x acc) = map_option snd (spine n m x [])"
proof (induction n arbitrary: x acc)
  case 0
  show ?case by simp
next
  case (Suc n)
  show ?case using Suc[of "hi m x" "acc @ [var m x]"] Suc[of "hi m x" "[var m x]"] by simp
qed

lemma spine_mono: "spine n m x acc = Some r \<Longrightarrow> spine (Suc n) m x acc = Some r"
proof (induction n arbitrary: x acc)
  case 0
  then show ?case by simp
next
  case (Suc n)
  then show ?case by (cases "is_val m x") auto
qed

lemma spine_end_step:
  "\<not> is_val m x \<Longrightarrow> map_option snd (spine (Suc n) m x []) = map_option snd (spine n m (hi m x) [])"
  using spine_acc[of n m "hi m x" "[var m x]"] by simp

lemma spine_end_mono:
  "map_option snd (spine n m x []) = Some e \<Longrightarrow> map_option snd (spine (Suc n) m x []) = Some e"
  using spine_mono[of n m x "[]"] by (cases "spine n m x []") auto

lemma common_factors_loop_coeffs:
  "common_factors_loop n m x y h p q = Some (Some (p1, q1, pc, qc)) \<Longrightarrow>
   \<exists>ex ey. map_option snd (spine n m x []) = Some ex \<and> map_option snd (spine n m y []) = Some ey \<and>
           (pc, qc) = reduce_coeffs m (val m ex) (val m ey)"
proof (induction n arbitrary: x y h p q)
  case 0
  then show ?case by simp
next
  case (Suc n)
  show ?case
  proof (cases "is_val m x \<or> is_val m y")
    case True
    with Suc.prems obtain y1 x1 where
      sy: "spine n m y q = Some (q1, y1)" and sx: "spine n m x p = Some (p1, x1)"
      and r: "(pc, qc) = reduce_coeffs m (val m x1) (val m y1)"
      by (auto split: if_splits option.splits)
    have "map_option snd (spine n m x []) = Some x1" using spine_acc[of n m x p] sx by simp
    moreover have "map_option snd (spine n m y []) = Some y1" using spine_acc[of n m y q] sy by simp
    ultimately show ?thesis using r spine_end_mono by blast
  next
    case False
    then have nx: "\<not> is_val m x" and ny: "\<not> is_val m y" by simp_all
    consider (eq) "level m x = level m y" | (gt) "level m x > level m y" | (lt) "level m x < level m y"
      by linarith
    then show ?thesis
    proof cases
      case eq
      with Suc.prems False have "common_factors_loop n m (hi m x) (hi m y) True p q = Some (Some (p1, q1, pc, qc))"
        by simp
      from Suc.IH[OF this] obtain ex ey where
        sx: "map_option snd (spine n m (hi m x) []) = Some ex" and
        sy: "map_option snd (spine n m (hi m y) []) = Some ey" and
        r: "(pc, qc) = reduce_coeffs m (val m ex) (val m ey)" by blast
      have "map_option snd (spine (Suc n) m x []) = Some ex"
        using spine_end_step[OF nx, of n] sx by (simp only:)
      moreover have "map_option snd (spine (Suc n) m y []) = Some ey"
        using spine_end_step[OF ny, of n] sy by (simp only:)
      ultimately show ?thesis using r by blast
    next
      case gt
      with Suc.prems False have "common_factors_loop n m (hi m x) y h (p @ [var m x]) q = Some (Some (p1, q1, pc, qc))"
        by simp
      from Suc.IH[OF this] obtain ex ey where
        sx: "map_option snd (spine n m (hi m x) []) = Some ex" and
        sy: "map_option snd (spine n m y []) = Some ey" and
        r: "(pc, qc) = reduce_coeffs m (val m ex) (val m ey)" by blast
      have "map_option snd (spine (Suc n) m x []) = Some ex"
        using spine_end_step[OF nx, of n] sx by (simp only:)
      moreover have "map_option snd (spine (Suc n) m y []) = Some ey"
        by (rule spine_end_mono[OF sy])
      ultimately show ?thesis using r by blast
    next
      case lt
      with Suc.prems False have "common_factors_loop n m x (hi m y) h p (q @ [var m y]) = Some (Some (p1, q1, pc, qc))"
        by simp
      from Suc.IH[OF this] obtain ex ey where
        sx: "map_option snd (spine n m x []) = Some ex" and
        sy: "map_option snd (spine n m (hi m y) []) = Some ey" and
        r: "(pc, qc) = reduce_coeffs m (val m ex) (val m ey)" by blast
      have "map_option snd (spine (Suc n) m x []) = Some ex"
        by (rule spine_end_mono[OF sx])
      moreover have "map_option snd (spine (Suc n) m y []) = Some ey"
        using spine_end_step[OF ny, of n] sy by (simp only:)
      ultimately show ?thesis using r by blast
    qed
  qed
qed

text \<open>
  Claim C8, as amended. Whenever \<^verbatim>\<open>common_factors(a, b, p, q, pc, qc)\<close> returns true in
  Q-mode, and both leading coefficients are integers, \<open>pc\<close> and \<open>qc\<close> are the leading
  coefficients of \<open>a\<close> and \<open>b\<close> divided by their gcd; when one of them is not an integer
  (and in mod-2 mode) they are the leading coefficients themselves.
\<close>

theorem common_factors_coefficients:
  assumes "common_factors fuel m a b = Some (Some (p, q, pc, qc))"
  shows "\<exists>ca cb. leading_coeff fuel m a = Some ca \<and> leading_coeff fuel m b = Some cb \<and>
           (pc, qc) = (if \<not> m_mod2_semantics m \<and> is_int ca \<and> is_int cb
                       then (ca / rat_gcd ca cb, cb / rat_gcd ca cb) else (ca, cb))"
proof -
  from common_factors_loop_coeffs[OF assms[unfolded common_factors_def]]
  obtain ex ey where "map_option snd (spine fuel m a []) = Some ex"
    "map_option snd (spine fuel m b []) = Some ey" "(pc, qc) = reduce_coeffs m (val m ex) (val m ey)"
    by blast
  then show ?thesis
    by (auto simp: leading_coeff_def reduce_coeffs_def)
qed


text \<open>Two polynomials \<open>c * v0\<close> and \<open>d * v0\<close> in a fresh manager: nodes 7 and 9.\<close>

definition coeff_scenario :: "rat \<Rightarrow> rat \<Rightarrow> (PDD \<times> PDD) result" where
  "coeff_scenario c d =
     then_do (pdd_manager 4) (\<lambda>_ m.
     then_do (mk_var 0 m) (\<lambda>v0 m.
     then_do (mk_val c m) (\<lambda>x m.
     then_do (mul 5 x v0 m) (\<lambda>a m.
     then_do (mk_val d m) (\<lambda>y m.
     then_do (mul 5 y v0 m) (\<lambda>b m. (Inr (a, b), m)))))))"

lemma floor_half: "\<lfloor>(1 / 2)::rat\<rfloor> = 0"
  by (simp add: floor_eq_iff)

lemma is_int_half: "\<not> is_int (1 / 2)"
  unfolding is_int_def floor_half by simp

lemma is_int_numeral: "is_int (numeral k)"
  by (simp add: is_int_def)

lemma gcd_4_6: "gcd (4::int) 6 = 2"
  by code_simp

lemma coeff_scenario_ints:
  "fst (coeff_scenario 4 6) = Inr (7, 9) \<and>
   common_factors 5 (snd (coeff_scenario 4 6)) 7 9 = Some (Some ([], [], 2, 3))"
  unfolding coeff_scenario_def
  by (simp add: eval_simps common_factors_def reduce_coeffs_def is_int_numeral rat_gcd_def gcd_4_6
      cong: then_do_weak_cong)

theorem common_factors_coefficients_witness:
  "common_factors 5 (snd (coeff_scenario 4 6)) 7 9 = Some (Some ([], [], 2, 3)) \<and>
   (\<exists>ca cb. leading_coeff 5 (snd (coeff_scenario 4 6)) 7 = Some ca \<and>
            leading_coeff 5 (snd (coeff_scenario 4 6)) 9 = Some cb \<and>
            (2, 3) = (if \<not> m_mod2_semantics (snd (coeff_scenario 4 6)) \<and> is_int ca \<and> is_int cb
                      then (ca / rat_gcd ca cb, cb / rat_gcd ca cb) else (ca, cb)))"
proof -
  have h: "common_factors 5 (snd (coeff_scenario 4 6)) 7 9 = Some (Some ([], [], 2, 3))"
    using coeff_scenario_ints by simp
  from common_factors_coefficients[OF h] h show ?thesis by blast
qed

text \<open>
  Whatever the gcd of two rationals is taken to be, it divides both: both quotients are
  integers.
\<close>

definition common_divisor :: "rat \<Rightarrow> rat \<Rightarrow> rat \<Rightarrow> bool" where
  "common_divisor g x y = (g \<noteq> 0 \<and> is_int (x / g) \<and> is_int (y / g))"

lemma no_divisor_keeps_half: "\<not> (\<exists>g. common_divisor g (1 / 2) 2 \<and> (1 / 2 :: rat) = (1 / 2) / g \<and> (2::rat) = 2 / g)"
proof
  assume "\<exists>g. common_divisor g (1 / 2) 2 \<and> (1 / 2 :: rat) = (1 / 2) / g \<and> (2::rat) = 2 / g"
  then obtain g where g: "common_divisor g (1 / 2) 2" "(2::rat) = 2 / g" by blast
  then have "g \<noteq> 0" by (simp add: common_divisor_def)
  with g(2) have "g = 1" by (simp add: field_simps)
  with g(1) show False by (simp add: common_divisor_def is_int_half)
qed

lemma coeff_scenario_half:
  "fst (coeff_scenario (1 / 2) 2) = Inr (7, 9) \<and>
   \<not> m_mod2_semantics (snd (coeff_scenario (1 / 2) 2)) \<and>
   leading_coeff 5 (snd (coeff_scenario (1 / 2) 2)) 7 = Some (1 / 2) \<and>
   leading_coeff 5 (snd (coeff_scenario (1 / 2) 2)) 9 = Some 2 \<and>
   common_factors 5 (snd (coeff_scenario (1 / 2) 2)) 7 9 = Some (Some ([], [], 1 / 2, 2))"
  unfolding coeff_scenario_def
  by (simp add: eval_simps common_factors_def reduce_coeffs_def is_int_half leading_coeff_def
      cong: then_do_weak_cong)

text \<open>
  Claim C8 as stated fails: for \<open>a = 1/2 * v0\<close> and \<open>b = 2 * v0\<close> in Q-mode,
  \<^verbatim>\<open>common_factors\<close> returns \<open>pc = 1/2\<close> and \<open>qc = 2\<close>, the leading coefficients
  unchanged, and no common divisor of \<open>1/2\<close> and \<open>2\<close> yields these as quotients.
\<close>

theorem common_factors_keeps_fractions:
  "fst (coeff_scenario (1 / 2) 2) = Inr (7, 9) \<and>
   \<not> m_mod2_semantics (snd (coeff_scenario (1 / 2) 2)) \<and>
   leading_coeff 5 (snd (coeff_scenario (1 / 2) 2)) 7 = Some (1 / 2) \<and>
   leading_coeff 5 (snd (coeff_scenario (1 / 2) 2)) 9 = Some 2 \<and>
   common_factors 5 (snd (coeff_scenario (1 / 2) 2)) 7 9 = Some (Some ([], [], 1 / 2, 2)) \<and>
   \<not> (\<exists>g. common_divisor g (1 / 2) 2 \<and> (1 / 2 :: rat) = (1 / 2) / g \<and> (2::rat) = 2 / g)"
  using coeff_scenario_half no_divisor_keeps_half by blast

section \<open>Reduction by a non-zero constant\<close>

lemma stack_restore: "m\<lparr>m_pdd_stack := take (length (m_pdd_stack m)) (m_pdd_stack m)\<rparr> = m"
  by simp

text \<open>
  Once the polynomial under reduction is 0 and the divisor \<open>b\<close> is a value node, the loop
  of \<^verbatim>\<open>reduce_on_match\<close> goes round without changing anything: \<^verbatim>\<open>lm_divides(b, 0)\<close> is
  true, the quotient is 0, and so are \<open>0 * b\<close> and \<open>0 + 0\<close>. No fuel is enough.
\<close>

lemma reduce_zero_by_value_diverges:
  assumes "is_val m 0" "is_val m b" "val m 0 = 0"
  shows "run n (Reduce_on_match 0 b) m = (Inl out_of_fuel, m)"
proof (induction n rule: less_induct)
  case (less n)
  show ?case
  proof (cases n)
    case 0
    then show ?thesis by simp
  next
    case n1: (Suc n1)
    show ?thesis
    proof (cases n1)
      case 0
      then show ?thesis using n1 by (simp add: reduce_on_match_body_def)
    next
      case n2: (Suc n2)
      have lq: "run n1 (Lt_quotient b 0) m = (Inr 0, m)"
        using assms n2 by (simp add: lt_quotient_body_def imk_val_def zero_pdd_def)
      show ?thesis
      proof (cases n2)
        case 0
        then show ?thesis using n1 n2 assms lq
          by (simp add: reduce_on_match_body_def then_do_def apply_body_def scoped_push_def)
      next
        case n3: (Suc n3)
        have ap1: "run n1 (Apply 0 b pdd_mul_op) m = (Inr 0, m)"
          using n2 n3
          by (simp add: apply_body_def scoped_push_def apply_rec_body_def apply_rec_short_def
              is_zero_def zero_pdd_def pdd_mul_op_def pdd_add_op_def)
        have ap2: "run n1 (Apply 0 0 pdd_add_op) m = (Inr 0, m)"
          using n2 n3
          by (simp add: apply_body_def scoped_push_def apply_rec_body_def apply_rec_short_def
              is_zero_def zero_pdd_def pdd_mul_op_def pdd_add_op_def)
        have "run n1 (Reduce_on_match 0 b) m = (Inl out_of_fuel, m)"
          using less[of n1] n1 by simp
        then show ?thesis using n1 n2 assms lq ap1 ap2
          by (simp add: reduce_on_match_body_def then_do_def)
      qed
    qed
  qed
qed

definition reduce_scenario :: "nat \<Rightarrow> PDD result" where
  "reduce_scenario fuel =
     then_do (pdd_manager 4) (\<lambda>_ m.
     then_do (mk_var 0 m) (\<lambda>v0 m.
     then_do (mk_val 2 m) (\<lambda>two m. reduce fuel v0 two m)))"

lemma run_Apply_rec: "run (Suc n) (Apply_rec p q op) m = apply_rec_body (run n) p q op m" by simp
lemma run_Minus_rec: "run (Suc n) (Minus_rec a) m = minus_rec_body (run n) a m" by simp
lemma run_Lt_quotient: "run (Suc n) (Lt_quotient p q) m = lt_quotient_body (run n) p q m" by simp
lemma run_Apply: "run (Suc n) (Apply a b op) m = apply_body (run n) a b op m" by simp
lemma run_Reduce_first: "a \<noteq> 0 \<Longrightarrow> run (Suc n) (Reduce_on_match a b) m = reduce_on_match_body n (run n) a b m" by simp
lemmas run_steps = run_Apply_rec run_Minus_rec run_Lt_quotient run_Apply run_Reduce_first

lemma reduce_scenario_enough_fuel: "fst (reduce_scenario (Suc (Suc (Suc (Suc (Suc (Suc (Suc n)))))))) = Inl out_of_fuel"
  unfolding reduce_scenario_def
  by (simp add: eval_simps run_steps reduce_zero_by_value_diverges del: run.simps
      cong: then_do_weak_cong)

lemma reduce_scenario_little_fuel:
  "fst (reduce_scenario 0) = Inl out_of_fuel \<and> fst (reduce_scenario 1) = Inl out_of_fuel \<and>
   fst (reduce_scenario 2) = Inl out_of_fuel \<and> fst (reduce_scenario 3) = Inl out_of_fuel \<and>
   fst (reduce_scenario 4) = Inl out_of_fuel \<and> fst (reduce_scenario 5) = Inl out_of_fuel \<and>
   fst (reduce_scenario 6) = Inl out_of_fuel"
  unfolding reduce_scenario_def
  by (simp add: eval_simps cong: then_do_weak_cong)

text \<open>
  Claim C2. In a fresh Q-mode manager, \<open>reduce(v0, 2)\<close> does not return, whatever the
  fuel: \<open>v0\<close> is at level 0, the level of every value node, so \<^verbatim>\<open>apply_rec\<close> hands the
  constant divisor to \<^verbatim>\<open>reduce_on_match\<close>, whose loop never ends.
\<close>

theorem reduce_by_constant_never_returns: "fst (reduce_scenario fuel) = Inl out_of_fuel"
proof (cases "fuel < 7")
  case True
  then have "fuel = 0 \<or> fuel = 1 \<or> fuel = 2 \<or> fuel = 3 \<or> fuel = 4 \<or> fuel = 5 \<or> fuel = 6"
    by arith
  then show ?thesis using reduce_scenario_little_fuel by blast
next
  case False
  then have "7 \<le> fuel" by simp
  then obtain n where "fuel = 7 + n" using le_Suc_ex by blast
  then have "fuel = (Suc (Suc (Suc (Suc (Suc (Suc (Suc n)))))))" by simp
  then show ?thesis using reduce_scenario_enough_fuel by simp
qed

section \<open>Garbage collection keeps what live handles denote\<close>

text \<open>
  The nodes marked in the bit vector, a set of nodes closed under \<open>lo\<close> and \<open>hi\<close>, and
  the invariant of the marking loop: every node of the work list is marked, and a marked
  decision node that is no longer on the work list has marked children.
\<close>

definition marked :: "bool list \<Rightarrow> nat set" where
  "marked reach = {i. i < length reach \<and> reach ! i}"

definition closed_under :: "manager \<Rightarrow> nat set \<Rightarrow> bool" where
  "closed_under m R = (\<forall>i\<in>R. \<not> is_val m i \<longrightarrow> lo m i \<in> R \<and> hi m i \<in> R)"

definition mark_inv :: "manager \<Rightarrow> bool list \<times> PDD list \<Rightarrow> bool" where
  "mark_inv m rt =
     (set (snd rt) \<subseteq> marked (fst rt) \<and>
      (\<forall>i\<in>marked (fst rt). i \<notin> set (snd rt) \<longrightarrow> \<not> is_val m i \<longrightarrow>
          lo m i \<in> marked (fst rt) \<and> hi m i \<in> marked (fst rt)))"

lemma marked_update: "c < length reach \<Longrightarrow> marked (reach[c := True]) = insert c (marked reach)"
  by (auto simp: marked_def nth_list_update)

lemma mark_child_marked:
  "c < length (fst rt) \<Longrightarrow> marked (fst (mark_child c rt)) = insert c (marked (fst rt))"
  by (cases rt) (auto simp: mark_child_def marked_def nth_list_update)

lemma mark_child_todo_sub: "set (snd rt) \<subseteq> set (snd (mark_child c rt))"
  by (cases rt) (auto simp: mark_child_def)

lemma mark_child_todo_sup: "set (snd (mark_child c rt)) \<subseteq> insert c (set (snd rt))"
  by (cases rt) (auto simp: mark_child_def)

lemma mark_child_new:
  "c < length (fst rt) \<Longrightarrow> c \<notin> marked (fst rt) \<Longrightarrow> c \<in> set (snd (mark_child c rt))"
  by (cases rt) (auto simp: mark_child_def marked_def)

lemma mark_inv_step:
  assumes inv: "mark_inv m (reach, p # todo)"
    and nv: "\<not> is_val m p" and l: "lo m p < length reach" and h: "hi m p < length reach"
  shows "mark_inv m (mark_child (hi m p) (mark_child (lo m p) (reach, todo)))"
proof -
  let ?r1 = "mark_child (lo m p) (reach, todo)"
  let ?r2 = "mark_child (hi m p) ?r1"
  have len1: "length (fst ?r1) = length reach" by (simp add: mark_child_length)
  have m1: "marked (fst ?r1) = insert (lo m p) (marked reach)"
    using mark_child_marked[of "lo m p" "(reach, todo)"] l by simp
  have m2: "marked (fst ?r2) = insert (hi m p) (insert (lo m p) (marked reach))"
    using mark_child_marked[of "hi m p" ?r1] h len1 m1 by simp
  have t_sub: "set todo \<subseteq> set (snd ?r2)"
    using mark_child_todo_sub[of "(reach, todo)" "lo m p"] mark_child_todo_sub[of ?r1 "hi m p"] by auto
  have t_sup: "set (snd ?r2) \<subseteq> insert (hi m p) (insert (lo m p) (set todo))"
    using mark_child_todo_sup[of "lo m p" "(reach, todo)"] mark_child_todo_sup[of "hi m p" ?r1] by auto
  have new_lo: "lo m p \<notin> marked reach \<Longrightarrow> lo m p \<in> set (snd ?r2)"
    using mark_child_new[of "lo m p" "(reach, todo)"] l mark_child_todo_sub[of ?r1 "hi m p"] by auto
  have new_hi: "hi m p \<notin> marked reach \<Longrightarrow> hi m p \<in> set (snd ?r2)"
  proof -
    assume a: "hi m p \<notin> marked reach"
    show ?thesis
    proof (cases "hi m p = lo m p")
      case True
      then show ?thesis using new_lo a by simp
    next
      case False
      then have "hi m p \<notin> marked (fst ?r1)" using a m1 by simp
      then show ?thesis using mark_child_new[of "hi m p" ?r1] h len1 by simp
    qed
  qed
  have sub: "set (snd ?r2) \<subseteq> marked (fst ?r2)"
    using t_sup inv m2 by (auto simp: mark_inv_def)
  have cl: "\<forall>i\<in>marked (fst ?r2). i \<notin> set (snd ?r2) \<longrightarrow> \<not> is_val m i \<longrightarrow>
          lo m i \<in> marked (fst ?r2) \<and> hi m i \<in> marked (fst ?r2)"
  proof (intro ballI impI)
    fix i assume i: "i \<in> marked (fst ?r2)" "i \<notin> set (snd ?r2)" "\<not> is_val m i"
    have old: "i \<in> marked reach" using i new_lo new_hi m2 by auto
    have nt: "i \<notin> set todo" using i(2) t_sub by auto
    show "lo m i \<in> marked (fst ?r2) \<and> hi m i \<in> marked (fst ?r2)"
    proof (cases "i = p")
      case True
      then show ?thesis using m2 by simp
    next
      case False
      then have "i \<notin> set (p # todo)" using nt by simp
      then show ?thesis using inv old i(3) m2 by (auto simp: mark_inv_def)
    qed
  qed
  show ?thesis using sub cl by (simp add: mark_inv_def)
qed

lemma mark_inv_skip:
  assumes inv: "mark_inv m (reach, p # todo)" and v: "is_val m p"
  shows "mark_inv m (reach, todo)"
  using assms by (auto simp: mark_inv_def)

lemma gc_mark_closed:
  "gc_mark m rt = Some r \<Longrightarrow> mark_inv m rt \<Longrightarrow>
   length r = length (fst rt) \<and> marked (fst rt) \<subseteq> marked r \<and> closed_under m (marked r)"
proof (induction m rt arbitrary: r rule: gc_mark.induct)
  case (1 m reach)
  then show ?case by (auto simp: mark_inv_def closed_under_def)
next
  case (2 m reach p todo)
  show ?case
  proof (cases "is_val m p")
    case True
    have p: "p < length (m_nodes m)" using "2.prems"(1) by (simp split: if_splits)
    have g: "gc_mark m (reach, todo) = Some r" using "2.prems"(1) True p by simp
    from "2.IH"(1)[OF _ True g mark_inv_skip[OF "2.prems"(2) True]] p
    show ?thesis by simp
  next
    case False
    have p: "p < length (m_nodes m)" using "2.prems"(1) by (simp split: if_splits)
    have lh': "lo m p < length reach \<and> hi m p < length reach"
      using "2.prems"(1) False p by (simp split: if_splits)
    then have l: "lo m p < length reach" and h: "hi m p < length reach" by simp_all
    have g: "gc_mark m (mark_child (hi m p) (mark_child (lo m p) (reach, todo))) = Some r"
      using "2.prems"(1) False p l h by simp
    have nn: "\<not> \<not> p < length (m_nodes m)" using p by simp
    have lh: "\<not> \<not> (lo m p < length reach \<and> hi m p < length reach)" using l h by simp
    from "2.IH"(2)[OF nn False lh g mark_inv_step[OF "2.prems"(2) False l h]]
    have "length r = length reach" and
      "marked (fst (mark_child (hi m p) (mark_child (lo m p) (reach, todo)))) \<subseteq> marked r"
      and "closed_under m (marked r)"
      by (simp_all add: mark_child_length)
    moreover have "marked reach \<subseteq> marked (fst (mark_child (hi m p) (mark_child (lo m p) (reach, todo))))"
      using mark_child_marked[of "lo m p" "(reach, todo)"]
        mark_child_marked[of "hi m p" "mark_child (lo m p) (reach, todo)"] l h
      by (auto simp: mark_child_length)
    ultimately show ?thesis by auto
  qed
qed

lemma gc_seed_stack_marks:
  "gc_seed_stack ps rt = Some rt' \<Longrightarrow> set (snd rt) = marked (fst rt) \<Longrightarrow>
   length (fst rt') = length (fst rt) \<and> set (snd rt') = marked (fst rt') \<and>
   marked (fst rt) \<subseteq> marked (fst rt')"
proof (induction ps arbitrary: rt)
  case Nil
  then show ?case by simp
next
  case (Cons p ps)
  obtain reach todo where rt: "rt = (reach, todo)" by (cases rt)
  from Cons.prems(1) rt have p: "p < length reach"
    and g: "gc_seed_stack ps (reach[p := True], p # todo) = Some rt'"
    by (auto split: if_splits)
  have "set (snd (reach[p := True], p # todo)) = marked (fst (reach[p := True], p # todo))"
    using Cons.prems(2) rt p by (simp add: marked_update)
  from Cons.IH[OF g this] show ?case using rt p by (auto simp: marked_update)
qed

lemma gc_seed_refs_marks:
  "set (snd rt) = marked (fst rt) \<Longrightarrow> \<forall>i\<in>set is. i < length (fst rt) \<Longrightarrow>
   length (fst (gc_seed_refs m is rt)) = length (fst rt) \<and>
   set (snd (gc_seed_refs m is rt)) = marked (fst (gc_seed_refs m is rt)) \<and>
   marked (fst rt) \<subseteq> marked (fst (gc_seed_refs m is rt)) \<and>
   {i \<in> set is. 0 < m_refcount (m_nodes m ! i)} \<subseteq> marked (fst (gc_seed_refs m is rt))"
proof (induction "is" arbitrary: rt)
  case Nil
  then show ?case by simp
next
  case (Cons i "is")
  obtain reach todo where rt: "rt = (reach, todo)" by (cases rt)
  have i: "i < length reach" using Cons.prems(2) rt by simp
  show ?case
  proof (cases "0 < m_refcount (m_nodes m ! i)")
    case True
    have a: "set (snd (reach[i := True], i # todo)) = marked (fst (reach[i := True], i # todo))"
      using Cons.prems(1) rt i by (simp add: marked_update)
    have b: "\<forall>j\<in>set is. j < length (fst (reach[i := True], i # todo))"
      using Cons.prems(2) rt by simp
    from Cons.IH[OF a b] show ?thesis using rt True i by (auto simp: marked_update)
  next
    case False
    have b: "\<forall>j\<in>set is. j < length (fst rt)" using Cons.prems(2) by simp
    from Cons.IH[OF Cons.prems(1) b] show ?thesis using rt False by auto
  qed
qed

lemma gc_sweep_nodes:
  "gc_sweep reach is m = Some m' \<Longrightarrow> i \<notin> set is \<or> reach ! i \<Longrightarrow> m_nodes m' ! i = m_nodes m ! i"
proof (induction "is" arbitrary: m)
  case Nil
  then show ?case by simp
next
  case (Cons j "is")
  have ij: "i \<noteq> j \<or> reach ! j" using Cons.prems(2) by auto
  have rest: "i \<notin> set is \<or> reach ! i" using Cons.prems(2) by auto
  show ?case
  proof (cases "reach ! j")
    case True
    with Cons.prems(1) have "gc_sweep reach is m = Some m'" by simp
    from Cons.IH[OF this rest] show ?thesis .
  next
    case False
    then have ne: "i \<noteq> j" using ij by simp
    show ?thesis
    proof (cases "is_val m j")
      case nv: False
      with Cons.prems(1) False have "gc_sweep reach is (free_slot j m) = Some m'" by simp
      from Cons.IH[OF this rest] show ?thesis using ne by (simp add: free_slot_def)
    next
      case v: True
      show ?thesis
      proof (cases "m_freeze_value m = val m j")
        case True
        with Cons.prems(1) False v have "gc_sweep reach is m = Some m'" by simp
        from Cons.IH[OF this rest] show ?thesis .
      next
        case fz: False
        with Cons.prems(1) False v obtain info :: const_info where
          "gc_sweep reach is
               (free_slot j (m\<lparr>m_free_values := m_free_values m @ [m_value_index info],
                                m_mpq_table := (m_mpq_table m)(val m j := None)\<rparr>)) = Some m'"
          by (cases "m_mpq_table m (val m j)") auto
        from Cons.IH[OF this rest] show ?thesis using ne by (simp add: free_slot_def)
      qed
    qed
  qed
qed

lemma to_monomials_frame:
  assumes "closed_under m R" and "\<forall>i\<in>R. m_nodes m' ! i = m_nodes m ! i"
    and "m_values m' = m_values m" and "m_level2var m' = m_level2var m"
  shows "p \<in> R \<Longrightarrow> to_monomials n m' p = to_monomials n m p"
proof (induction n arbitrary: p)
  case 0
  show ?case by simp
next
  case (Suc n)
  have same: "m_nodes m' ! p = m_nodes m ! p" using assms(2) Suc.prems by simp
  then have v: "is_val m' p = is_val m p" and l: "lo m' p = lo m p" and h: "hi m' p = hi m p"
    and vl: "val m' p = val m p" and vr: "var m' p = var m p"
    using assms(3,4) by (simp_all add: is_val_def lo_def hi_def val_def var_def level_def)
  show ?case
  proof (cases "is_val m p")
    case True
    then show ?thesis using v vl by simp
  next
    case False
    then have "lo m p \<in> R" and "hi m p \<in> R" using assms(1) Suc.prems by (auto simp: closed_under_def)
    then have a: "to_monomials n m' (hi m' p) = to_monomials n m (hi m p)"
      and b: "to_monomials n m' (lo m' p) = to_monomials n m (lo m p)"
      using Suc.IH l h by simp_all
    show ?thesis using v vr False by (simp add: a b cong: option.case_cong)
  qed
qed

lemma gc_keeps_monomials:
  assumes g: "gc m = Some m'" and z: "is_val m 0" and o: "is_val m 1"
    and h: "h < length (m_nodes m)" and live: "0 < m_refcount (m_nodes m ! h)"
  shows "to_monomials n m' h = to_monomials n m h"
proof -
  let ?m0 = "m\<lparr>m_free_nodes := []\<rparr>"
  let ?N = "length (m_nodes m)"
  from g obtain rt reach m1 where
    s1: "gc_seed_stack (rev (m_pdd_stack m)) (replicate ?N False, []) = Some rt" and
    s2: "gc_mark ?m0 (gc_seed_refs ?m0 (slots_down ?m0) rt) = Some reach" and
    s3: "gc_sweep reach (slots_down ?m0) ?m0 = Some m1" and
    nodes: "m_nodes m' = m_nodes m1" and vals: "m_values m' = m_values m1"
    and l2v: "m_level2var m' = m_level2var m1"
    by (auto simp: gc_def Let_def split: option.splits)
  have e0: "set (snd (replicate ?N False, [])) = marked (fst (replicate ?N False, []))"
    by (auto simp: marked_def)
  from gc_seed_stack_marks[OF s1 e0] have
    len1: "length (fst rt) = ?N" and e1: "set (snd rt) = marked (fst rt)" by simp_all
  let ?rt2 = "gc_seed_refs ?m0 (slots_down ?m0) rt"
  have rng: "\<forall>i\<in>set (slots_down ?m0). i < length (fst rt)"
    using len1 by (auto simp: slots_down_def)
  from gc_seed_refs_marks[OF e1 rng, of ?m0] have
    len2: "length (fst ?rt2) = ?N" and e2: "set (snd ?rt2) = marked (fst ?rt2)"
    and seeds: "{i \<in> set (slots_down ?m0). 0 < m_refcount (m_nodes ?m0 ! i)} \<subseteq> marked (fst ?rt2)"
    using len1 by simp_all
  have inv: "mark_inv ?m0 ?rt2" using e2 by (auto simp: mark_inv_def)
  from gc_mark_closed[OF s2 inv] have
    sub: "marked (fst ?rt2) \<subseteq> marked reach" and cl: "closed_under ?m0 (marked reach)" by simp_all
  let ?R = "marked reach \<union> {0, 1}"
  have v0: "\<And>i. is_val ?m0 i = is_val m i" and l0: "\<And>i. lo ?m0 i = lo m i" and h0: "\<And>i. hi ?m0 i = hi m i"
    by (simp_all add: is_val_def lo_def hi_def)
  have clR: "closed_under m ?R"
    using cl z o by (auto simp: closed_under_def v0 l0 h0)
  have same: "\<forall>i\<in>?R. m_nodes m' ! i = m_nodes m ! i"
  proof
    fix i assume i: "i \<in> ?R"
    have "i \<notin> set (slots_down ?m0) \<or> reach ! i"
      using i by (auto simp: slots_down_def marked_def)
    from gc_sweep_nodes[OF s3 this] show "m_nodes m' ! i = m_nodes m ! i" using nodes by simp
  qed
  have fr: "m_values m' = m_values m \<and> m_level2var m' = m_level2var m"
    using gc_sweep_frame[OF s3] vals l2v by simp
  have hR: "h \<in> ?R"
  proof (cases "h < 2")
    case True
    then show ?thesis by auto
  next
    case False
    then have "h \<in> set (slots_down ?m0)" using h by (auto simp: slots_down_def)
    then show ?thesis using seeds sub live by auto
  qed
  from to_monomials_frame[OF clR same _ _ hR] fr show ?thesis by simp
qed

text \<open>
  Claim C4. For every manager whose nodes 0 and 1 are value nodes, and every handle
  \<open>h\<close> that is live (its root has a positive reference count), a \<^verbatim>\<open>try_gc\<close> that
  completes leaves the monomial list of \<open>h\<close> unchanged, for every fuel of
  \<open>to_monomials\<close>.
\<close>

theorem try_gc_keeps_monomials:
  assumes "try_gc m = Some m'" and "is_val m 0" and "is_val m 1"
    and "h < length (m_nodes m)" and "0 < m_refcount (m_nodes m ! h)"
  shows "to_monomials n m' h = to_monomials n m h"
proof -
  from assms(1) obtain m1 where g: "gc m = Some m1" and m': "m' = m1\<lparr>m_op_cache := Map.empty\<rparr>"
    by (auto simp: try_gc_def split: option.splits)
  have "closed_under m1 UNIV" by (simp add: closed_under_def)
  from to_monomials_frame[OF this, of m' h n] m'
  have "to_monomials n m' h = to_monomials n m1 h" by simp
  then show ?thesis using gc_keeps_monomials[OF g assms(2-5)] by simp
qed

text \<open>
  A manager with a pool of six slots: \<open>v0 + 1\<close> in slot 4 behind a live handle, \<open>v1 + 1\<close>
  in slot 5 with its handle dropped. \<^verbatim>\<open>try_gc\<close> frees slot 5.
\<close>

definition gc_scenario :: "PDD result" where
  "gc_scenario =
     then_do (init_manager 6 2) (\<lambda>_ m.
     then_do (mk_var 0 m) (\<lambda>v0 m.
     then_do (mk_var 1 m) (\<lambda>v1 m.
     then_do (one m) (\<lambda>i m.
     then_do (add 3 v0 i m) (\<lambda>p m.
     then_do (add 3 v1 i m) (\<lambda>q m. (Inr p, dec_ref q m)))))))"

lemma gc_scenario_state:
  "fst gc_scenario = Inr 4 \<and> is_val (snd gc_scenario) 0 \<and> is_val (snd gc_scenario) 1 \<and>
   4 < length (m_nodes (snd gc_scenario)) \<and> 0 < m_refcount (m_nodes (snd gc_scenario) ! 4) \<and>
   to_monomials 3 (snd gc_scenario) 4 = Some [(1, [0]), (1, [])]"
  unfolding gc_scenario_def
  by (simp add: eval_simps cong: then_do_weak_cong)

lemma gc_scenario_collects:
  "map_option m_free_nodes (try_gc (snd gc_scenario)) = Some [5]"
  unfolding gc_scenario_def
  by (simp add: eval_simps gc_defs cong: then_do_weak_cong)

theorem try_gc_keeps_monomials_witness:
  "try_gc (snd gc_scenario) \<noteq> None \<and> is_val (snd gc_scenario) 0 \<and> is_val (snd gc_scenario) 1 \<and>
   4 < length (m_nodes (snd gc_scenario)) \<and> 0 < m_refcount (m_nodes (snd gc_scenario) ! 4) \<and>
   map_option m_free_nodes (try_gc (snd gc_scenario)) = Some [5] \<and>
   to_monomials 3 (the (try_gc (snd gc_scenario))) 4 = Some [(1, [0]), (1, [])]"
proof -
  from gc_scenario_collects obtain m' where g: "try_gc (snd gc_scenario) = Some m'" by auto
  from gc_scenario_state have a: "is_val (snd gc_scenario) 0" and b: "is_val (snd gc_scenario) 1"
    and c: "4 < length (m_nodes (snd gc_scenario))"
    and d: "0 < m_refcount (m_nodes (snd gc_scenario) ! 4)"
    and e: "to_monomials 3 (snd gc_scenario) 4 = Some [(1, [0]), (1, [])]" by simp_all
  from try_gc_keeps_monomials[OF g a b c d, of 3] e
  have "to_monomials 3 m' 4 = Some [(1, [0]), (1, [])]" by simp
  then show ?thesis using g a b c d gc_scenario_collects by simp
qed

section \<open>\<^verbatim>\<open>sub\<close> as \<^verbatim>\<open>add\<close> of \<^verbatim>\<open>minus\<close>\<close>

text \<open>
  The result of the evaluator does not depend on how large the reference counts are,
  only on which of them are positive: the garbage collection is the only reader, and it
  tests \<^verbatim>\<open>m_refcount > 0\<close>. \<open>norm_rc\<close> replaces every positive count by 1; every
  operation on the path of \<^verbatim>\<open>apply\<close> commutes with it.
\<close>

definition shape :: "pdd_node \<Rightarrow> pdd_node" where
  "shape n = n\<lparr>m_refcount := (if 0 < m_refcount n then 1 else 0)\<rparr>"

definition norm_rc :: "manager \<Rightarrow> manager" where
  "norm_rc m = m\<lparr>m_nodes := map shape (m_nodes m)\<rparr>"

definition map_res :: "(manager \<Rightarrow> manager) \<Rightarrow> 'a result \<Rightarrow> 'a result" where
  "map_res f r = (fst r, f (snd r))"

lemma nth_beyond: "length xs \<le> p \<Longrightarrow> xs ! p = [] ! (p - length xs)"
proof (induction xs arbitrary: p)
  case Nil
  show ?case by simp
next
  case (Cons x xs)
  then show ?case by (cases p) auto
qed

lemma shape_fields:
  "m_level ((map shape xs) ! p) = m_level (xs ! p) \<and> m_lo ((map shape xs) ! p) = m_lo (xs ! p) \<and>
   m_hi ((map shape xs) ! p) = m_hi (xs ! p) \<and> m_index ((map shape xs) ! p) = m_index (xs ! p)"
proof (cases "p < length xs")
  case True
  then show ?thesis by (simp add: shape_def)
next
  case False
  then show ?thesis using nth_beyond[of xs p] nth_beyond[of "map shape xs" p] by simp
qed

lemma norm_reads:
  "level (norm_rc m) p = level m p" "lo (norm_rc m) p = lo m p" "hi (norm_rc m) p = hi m p"
  "is_val (norm_rc m) p = is_val m p" "val (norm_rc m) p = val m p" "var (norm_rc m) p = var m p"
  using shape_fields[of "m_nodes m" p]
  by (simp_all add: norm_rc_def level_def lo_def hi_def is_val_def node_is_val_def val_def var_def)

lemma norm_fields:
  "m_free_nodes (norm_rc m) = m_free_nodes m" "m_values (norm_rc m) = m_values m"
  "m_free_values (norm_rc m) = m_free_values m" "m_mpq_table (norm_rc m) = m_mpq_table m"
  "m_node_table (norm_rc m) = m_node_table m" "m_op_cache (norm_rc m) = m_op_cache m"
  "m_pdd_stack (norm_rc m) = m_pdd_stack m" "m_var2pdd (norm_rc m) = m_var2pdd m"
  "m_var2level (norm_rc m) = m_var2level m" "m_level2var (norm_rc m) = m_level2var m"
  "m_max_num_pdd_nodes (norm_rc m) = m_max_num_pdd_nodes m" "m_disable_gc (norm_rc m) = m_disable_gc m"
  "m_mod2_semantics (norm_rc m) = m_mod2_semantics m" "m_freeze_value (norm_rc m) = m_freeze_value m"
  "length (m_nodes (norm_rc m)) = length (m_nodes m)"
  by (simp_all add: norm_rc_def)

lemma norm_refcount:
  "i < length (m_nodes m) \<Longrightarrow> (0 < m_refcount (m_nodes (norm_rc m) ! i)) = (0 < m_refcount (m_nodes m ! i))"
  by (simp add: norm_rc_def shape_def)

lemma norm_push: "push b (norm_rc m) = norm_rc (push b m)"
  by (simp add: push_def norm_rc_def)

lemma norm_pop: "pop k (norm_rc m) = norm_rc (pop k m)"
  by (simp add: pop_def norm_rc_def)

lemma norm_read: "read (norm_rc m) k = read m k"
  by (simp add: read_def norm_rc_def)

lemma norm_read_r: "read_r k (norm_rc m) = map_res norm_rc (read_r k m)"
  by (simp add: read_r_def norm_read map_res_def split: option.splits)

lemma norm_then_do:
  assumes "r' = map_res norm_rc r" and "\<And>x m. f x (norm_rc m) = map_res norm_rc (g x m)"
  shows "then_do r' f = map_res norm_rc (then_do r g)"
  using assms by (cases r; cases "fst r") (auto simp: then_do_def map_res_def)

lemma norm_push_r:
  "r' = map_res norm_rc r \<Longrightarrow> push_r r' = map_res norm_rc (push_r r)"
  unfolding push_r_def by (rule norm_then_do) (simp_all add: norm_push map_res_def)

lemma norm_insert_if_not_there2: "insert_if_not_there2 n (norm_rc m) = norm_rc (insert_if_not_there2 n m)"
  by (simp add: insert_if_not_there2_def norm_rc_def split: option.splits)

lemma shape_fresh: "shape (n\<lparr>m_refcount := 0, m_index := r\<rparr>) = n\<lparr>m_refcount := 0, m_index := r\<rparr>"
  by (simp add: shape_def)

lemma norm_take_free_slot: "take_free_slot n (norm_rc m) = map_res norm_rc (take_free_slot n m)"
  by (simp add: take_free_slot_def norm_rc_def map_res_def Let_def map_update shape_fresh)

lemma shape_empty: "shape (empty_node\<lparr>m_index := i\<rparr>) = empty_node\<lparr>m_index := i\<rparr>"
  by (simp add: shape_def empty_node_def mk_node_def)

lemma norm_alloc_free_nodes: "alloc_free_nodes k (norm_rc m) = norm_rc (alloc_free_nodes k m)"
  by (simp add: alloc_free_nodes_def alloc_loop_closed Let_def norm_rc_def blank_slots_def shape_empty)

lemma norm_gc_seed_refs:
  "\<forall>i\<in>set is. i < length (m_nodes m) \<Longrightarrow> gc_seed_refs (norm_rc m) is rt = gc_seed_refs m is rt"
proof (induction "is" arbitrary: rt)
  case Nil
  show ?case by simp
next
  case (Cons i "is")
  obtain reach todo where rt: "rt = (reach, todo)" by (cases rt)
  have "i < length (m_nodes m)" using Cons.prems by simp
  then show ?case using Cons rt by (simp add: norm_refcount)
qed

lemma norm_gc_mark: "gc_mark (norm_rc m) rt = gc_mark m rt"
proof (induction m rt rule: gc_mark.induct)
  case (1 m reach)
  show ?case by simp
next
  case (2 m reach p todo)
  show ?case
  proof (cases "p < length (m_nodes m)")
    case False
    then show ?thesis by (simp add: norm_fields)
  next
    case p: True
    show ?thesis
    proof (cases "is_val m p")
      case True
      then show ?thesis using p "2.IH"(1) by (simp add: norm_fields norm_reads)
    next
      case False
      show ?thesis
      proof (cases "lo m p < length reach \<and> hi m p < length reach")
        case True
        then show ?thesis using p False "2.IH"(2) by (simp add: norm_fields norm_reads)
      next
        case lh: False
        then show ?thesis using p False by (simp add: norm_fields norm_reads)
      qed
    qed
  qed
qed

lemma shape_set_internal: "shape (set_internal n) = set_internal (shape n)"
  by (simp add: shape_def set_internal_def)

lemma norm_free_slot: "free_slot i (norm_rc m) = norm_rc (free_slot i m)"
proof (cases "i < length (m_nodes m)")
  case True
  then show ?thesis
    by (simp add: free_slot_def norm_rc_def map_update shape_set_internal)
next
  case False
  then show ?thesis by (simp add: free_slot_def norm_rc_def list_update_beyond)
qed

lemma norm_update_other:
  "norm_rc (m\<lparr>m_free_values := fv, m_mpq_table := t\<rparr>) = (norm_rc m)\<lparr>m_free_values := fv, m_mpq_table := t\<rparr>"
  by (simp add: norm_rc_def)

lemma norm_gc_sweep: "gc_sweep reach is (norm_rc m) = map_option norm_rc (gc_sweep reach is m)"
proof (induction "is" arbitrary: m)
  case Nil
  show ?case by simp
next
  case (Cons i "is")
  show ?case
    by (simp add: norm_reads norm_fields norm_free_slot Cons norm_update_other[symmetric]
        split: option.splits)
qed

lemma norm_gc_rebuild: "gc_rebuild (norm_rc m) reach is tbl = gc_rebuild m reach is tbl"
proof (induction "is" arbitrary: tbl)
  case Nil
  show ?case by simp
next
  case (Cons i "is")
  have k1: "node_key (m_nodes (norm_rc m) ! i) = node_key (m_nodes m ! i)"
    and k2: "m_index (m_nodes (norm_rc m) ! i) = m_index (m_nodes m ! i)"
    using shape_fields[of "m_nodes m" i] by (simp_all add: node_key_def norm_rc_def)
  show ?case by (simp only: gc_rebuild.simps k1 k2 Cons)
qed

lemma norm_gc: "gc (norm_rc m) = map_option norm_rc (gc m)"
proof -
  let ?m0 = "m\<lparr>m_free_nodes := []\<rparr>"
  have n0: "norm_rc m\<lparr>m_free_nodes := []\<rparr> = norm_rc ?m0" by (simp add: norm_rc_def)
  have sd: "slots_down (norm_rc ?m0) = slots_down ?m0" by (simp add: slots_down_def norm_fields)
  have rng: "\<forall>i\<in>set (slots_down ?m0). i < length (m_nodes ?m0)" by (auto simp: slots_down_def)
  have fin: "\<And>m1 reach. (norm_rc m1)\<lparr>m_free_nodes := rev (sort (m_free_nodes m1)),
                 m_op_cache := keep_pending (m_op_cache m1),
                 m_node_table := gc_rebuild m1 reach (slots_down m1) Map.empty\<rparr>
           = norm_rc (m1\<lparr>m_free_nodes := rev (sort (m_free_nodes m1)),
                 m_op_cache := keep_pending (m_op_cache m1),
                 m_node_table := gc_rebuild m1 reach (slots_down m1) Map.empty\<rparr>)"
    by (simp add: norm_rc_def)
  have sd1: "\<And>m1. slots_down (norm_rc m1) = slots_down m1" by (simp add: slots_down_def norm_fields)
  show ?thesis
    unfolding gc_def Let_def n0
    by (simp add: norm_fields sd norm_gc_seed_refs[OF rng] norm_gc_mark norm_gc_sweep
        norm_gc_rebuild sd1 fin split: option.splits)
qed

lemma norm_update_cache: "(norm_rc m)\<lparr>m_op_cache := c\<rparr> = norm_rc (m\<lparr>m_op_cache := c\<rparr>)"
  by (simp add: norm_rc_def)

lemma norm_try_gc: "try_gc (norm_rc m) = map_option norm_rc (try_gc m)"
  by (simp add: try_gc_def norm_gc norm_update_cache split: option.splits)

lemma map_res_pair: "map_res f (x, m) = (x, f m)"
  by (simp add: map_res_def)

lemma then_do_norm:
  "(\<And>x m. f x (norm_rc m) = map_res norm_rc (f x m)) \<Longrightarrow>
   then_do (map_res norm_rc r) f = map_res norm_rc (then_do r f)"
  by (cases r; cases "fst r") (auto simp: then_do_def map_res_def)

lemma push_r_norm: "push_r (map_res norm_rc r) = map_res norm_rc (push_r r)"
  unfolding push_r_def by (rule then_do_norm) (simp add: norm_push map_res_pair)

lemma norm_grow:
  "(if length (m_nodes (norm_rc m)) > m_max_num_pdd_nodes (norm_rc m) then (Inl mem_out, norm_rc m)
    else take_free_slot n (alloc_free_nodes (length (m_nodes (norm_rc m)) div 2) (norm_rc m))) =
   map_res norm_rc
     (if length (m_nodes m) > m_max_num_pdd_nodes m then (Inl mem_out, m)
      else take_free_slot n (alloc_free_nodes (length (m_nodes m) div 2) m))"
  by (simp add: norm_fields norm_alloc_free_nodes norm_take_free_slot map_res_pair)

lemma norm_insert_node: "insert_node n (norm_rc m) = map_res norm_rc (insert_node n m)"
proof -
  let ?m1 = "insert_if_not_there2 n m"
  have m1: "insert_if_not_there2 n (norm_rc m) = norm_rc ?m1" by (rule norm_insert_if_not_there2)
  show ?thesis
  proof (cases "the (m_node_table ?m1 (node_key n)) \<noteq> 0")
    case True
    then show ?thesis by (simp add: insert_node_def Let_def m1 norm_fields map_res_pair)
  next
    case new: False
    show ?thesis
    proof (cases "m_free_nodes ?m1 = []")
      case False
      then show ?thesis using new
        by (simp add: insert_node_def Let_def m1 norm_fields norm_take_free_slot)
    next
      case empty: True
      show ?thesis
      proof (cases "m_disable_gc ?m1")
        case True
        then show ?thesis using new empty norm_grow[of ?m1 n]
          by (simp add: insert_node_def Let_def m1 norm_fields)
      next
        case False
        show ?thesis
        proof (cases "gc ?m1")
          case None
          then show ?thesis using new empty False
            by (simp add: insert_node_def Let_def m1 norm_fields norm_gc map_res_pair)
        next
          case (Some m2)
          then show ?thesis using new empty False norm_grow[of "insert_if_not_there2 n m2" n]
            by (simp add: insert_node_def Let_def m1 norm_fields norm_gc norm_insert_if_not_there2)
        qed
      qed
    qed
  qed
qed

lemma norm_update_flag: "(norm_rc m)\<lparr>m_is_new_node := b\<rparr> = norm_rc (m\<lparr>m_is_new_node := b\<rparr>)"
  by (simp add: norm_rc_def)

lemma norm_make_node: "make_node lvl l h (norm_rc m) = map_res norm_rc (make_node lvl l h m)"
  by (simp add: make_node_def Let_def norm_update_flag norm_insert_node map_res_pair)

lemma norm_init_value: "init_value r (norm_rc m) = map_res norm_rc (init_value r m)"
proof -
  have a: "\<And>vs fz. (norm_rc m)\<lparr>m_values := vs, m_freeze_value := fz\<rparr> = norm_rc (m\<lparr>m_values := vs, m_freeze_value := fz\<rparr>)"
    by (simp add: norm_rc_def)
  have b: "\<And>fv vs fz. (norm_rc m)\<lparr>m_free_values := fv, m_values := vs, m_freeze_value := fz\<rparr>
       = norm_rc (m\<lparr>m_free_values := fv, m_values := vs, m_freeze_value := fz\<rparr>)"
    by (simp add: norm_rc_def)
  have c: "\<And>m3 t. (norm_rc m3)\<lparr>m_mpq_table := t\<rparr> = norm_rc (m3\<lparr>m_mpq_table := t\<rparr>)"
    by (simp add: norm_rc_def)
  show ?thesis
    by (auto simp: init_value_def Let_def norm_fields a b c norm_insert_node map_res_def
        split: prod.splits sum.splits)
qed

lemma norm_imk_val: "imk_val r (norm_rc m) = map_res norm_rc (imk_val r m)"
  by (simp add: imk_val_def norm_fields norm_init_value map_res_pair split: option.splits)

lemmas norm_steps = norm_reads norm_fields push_r_norm then_do_norm norm_read_r norm_make_node
  norm_imk_val map_res_pair

lemma norm_add_lo:
  assumes H: "\<And>c m. rec c (norm_rc m) = map_res norm_rc (rec c m)"
  shows "add_lo rec lp p q (norm_rc m) = map_res norm_rc (add_lo rec lp p q m)"
  unfolding add_lo_def by (simp add: H norm_steps)

lemma norm_distribute:
  assumes H: "\<And>c m. rec c (norm_rc m) = map_res norm_rc (rec c m)"
  shows "distribute rec lp p q op (norm_rc m) = map_res norm_rc (distribute rec lp p q op m)"
  unfolding distribute_def by (simp add: H norm_steps)

lemma norm_add_case:
  assumes H: "\<And>c m. rec c (norm_rc m) = map_res norm_rc (rec c m)"
  shows "add_case rec p q (norm_rc m) = map_res norm_rc (add_case rec p q m)"
  unfolding add_case_def Let_def by (simp add: H norm_steps norm_add_lo)

lemma norm_mul_mod2_case:
  assumes H: "\<And>c m. rec c (norm_rc m) = map_res norm_rc (rec c m)"
  shows "mul_mod2_case rec lp p q (norm_rc m) = map_res norm_rc (mul_mod2_case rec lp p q m)"
  unfolding mul_mod2_case_def by (simp add: H norm_steps)

lemma norm_mul_q_finish:
  assumes H: "\<And>c m. rec c (norm_rc m) = map_res norm_rc (rec c m)"
  shows "mul_q_finish rec lp ac bd n (norm_rc m) = map_res norm_rc (mul_q_finish rec lp ac bd n m)"
  unfolding mul_q_finish_def by (simp add: H norm_steps)

lemma norm_mul_q_case:
  assumes H: "\<And>c m. rec c (norm_rc m) = map_res norm_rc (rec c m)"
  shows "mul_q_case rec lp p q (norm_rc m) = map_res norm_rc (mul_q_case rec lp p q m)"
  unfolding mul_q_case_def by (simp add: H norm_steps norm_mul_q_finish)

lemma norm_mul_case:
  assumes H: "\<And>c m. rec c (norm_rc m) = map_res norm_rc (rec c m)"
  shows "mul_case rec p q (norm_rc m) = map_res norm_rc (mul_case rec p q m)"
  unfolding mul_case_def Let_def
  by (simp add: H norm_steps norm_distribute norm_mul_mod2_case norm_mul_q_case)

lemma norm_reduce_case:
  assumes H: "\<And>c m. rec c (norm_rc m) = map_res norm_rc (rec c m)"
  shows "reduce_case rec p q (norm_rc m) = map_res norm_rc (reduce_case rec p q m)"
  unfolding reduce_case_def Let_def by (simp add: H norm_steps norm_distribute)

lemma norm_set_result: "set_result k r (norm_rc m) = norm_rc (set_result k r m)"
  by (simp add: set_result_def norm_fields norm_update_cache split: option.splits)

lemma norm_memoized:
  assumes C: "\<And>m. compute (norm_rc m) = map_res norm_rc (compute m)"
  shows "memoized k compute (norm_rc m) = map_res norm_rc (memoized k compute m)"
  unfolding memoized_def
  by (simp add: norm_steps norm_update_cache C norm_set_result norm_pop split: option.splits)

lemma norm_apply_rec_short:
  "apply_rec_short p q op (norm_rc m) =
     (case apply_rec_short p q op m of Done r \<Rightarrow> Done (map_res norm_rc r) | Continue a b \<Rightarrow> Continue a b)"
  by (simp add: apply_rec_short_def canonical_order_def Let_def norm_steps)

lemma norm_apply_rec_body:
  assumes H: "\<And>c m. rec c (norm_rc m) = map_res norm_rc (rec c m)"
  shows "apply_rec_body rec p q op (norm_rc m) = map_res norm_rc (apply_rec_body rec p q op m)"
  unfolding apply_rec_body_def norm_apply_rec_short
  by (cases "apply_rec_short p q op m")
     (simp_all add: norm_memoized norm_add_case[where rec=rec, OF H] norm_mul_case[where rec=rec, OF H]
        norm_reduce_case[where rec=rec, OF H])

lemma norm_minus_rec_body:
  assumes H: "\<And>c m. rec c (norm_rc m) = map_res norm_rc (rec c m)"
  shows "minus_rec_body rec a (norm_rc m) = map_res norm_rc (minus_rec_body rec a m)"
  unfolding minus_rec_body_def
  by (simp add: norm_steps norm_memoized H)

lemma norm_lm_divides: "lm_divides n (norm_rc m) p q = lm_divides n m p q"
  by (induction n arbitrary: p q) (simp_all add: norm_reads)

lemma norm_reduce_on_match_body:
  assumes H: "\<And>c m. rec c (norm_rc m) = map_res norm_rc (rec c m)"
  shows "reduce_on_match_body n rec a b (norm_rc m) = map_res norm_rc (reduce_on_match_body n rec a b m)"
  unfolding reduce_on_match_body_def
  by (simp add: norm_lm_divides norm_steps H split: option.splits bool.splits)

lemma norm_lt_quotient_body:
  assumes H: "\<And>c m. rec c (norm_rc m) = map_res norm_rc (rec c m)"
  shows "lt_quotient_body rec p q (norm_rc m) = map_res norm_rc (lt_quotient_body rec p q m)"
  unfolding lt_quotient_body_def
  by (simp add: norm_steps H)

lemma norm_retry_loop_False:
  assumes W: "\<And>m. worker (norm_rc m) = map_res norm_rc (worker m)"
  shows "retry_loop False worker (norm_rc m) = map_res norm_rc (retry_loop False worker m)"
  by (cases "worker m"; cases "fst (worker m)")
     (auto simp: W norm_try_gc map_res_def split: option.splits)

lemma norm_retry_loop:
  assumes W: "\<And>m. worker (norm_rc m) = map_res norm_rc (worker m)"
  shows "retry_loop True worker (norm_rc m) = map_res norm_rc (retry_loop True worker m)"
proof -
  have F: "\<And>m. retry_loop False worker (norm_rc m) = map_res norm_rc (retry_loop False worker m)"
    by (rule norm_retry_loop_False[where worker=worker, OF W])
  show ?thesis
    apply (subst retry_loop.simps)
    apply (subst (2) retry_loop.simps)
    apply (cases "worker m"; cases "fst (worker m)")
     apply (auto simp: W norm_try_gc map_res_def F simp del: retry_loop.simps split: option.splits)
    done
qed

lemma norm_scoped_push:
  assumes B: "\<And>m. body (norm_rc m) = map_res norm_rc (body m)"
  shows "scoped_push body (norm_rc m) = map_res norm_rc (scoped_push body m)"
proof -
  have "\<And>m1 st. (norm_rc m1)\<lparr>m_pdd_stack := st\<rparr> = norm_rc (m1\<lparr>m_pdd_stack := st\<rparr>)"
    by (simp add: norm_rc_def)
  then show ?thesis
    by (cases "body m") (simp add: scoped_push_def B map_res_def norm_fields)
qed

lemma norm_apply_body:
  assumes H: "\<And>c m. rec c (norm_rc m) = map_res norm_rc (rec c m)"
  shows "apply_body rec a b op (norm_rc m) = map_res norm_rc (apply_body rec a b op m)"
  unfolding apply_body_def
  by (rule norm_scoped_push, rule norm_retry_loop, rule H)

lemma norm_run: "run n c (norm_rc m) = map_res norm_rc (run n c m)"
proof (induction n arbitrary: c m)
  case 0
  show ?case by (simp add: map_res_pair)
next
  case (Suc n)
  show ?case
    by (cases c)
       (simp_all add: norm_apply_rec_body[where rec="run n", OF Suc]
          norm_minus_rec_body[where rec="run n", OF Suc]
          norm_reduce_on_match_body[where rec="run n", OF Suc]
          norm_lt_quotient_body[where rec="run n", OF Suc]
          norm_apply_body[where rec="run n", OF Suc])
qed

lemma norm_apply_pdd: "apply_pdd n a b op (norm_rc m) = map_res norm_rc (apply_pdd n a b op m)"
  unfolding apply_pdd_def apply_rec_def
  by (rule norm_scoped_push, rule norm_retry_loop, rule norm_run)

lemma norm_inc_ref_live: "0 < m_refcount (m_nodes m ! b) \<Longrightarrow> norm_rc (inc_ref b m) = norm_rc m"
proof (cases "b < length (m_nodes m)")
  case True
  assume "0 < m_refcount (m_nodes m ! b)"
  then have "shape ((m_nodes m ! b)\<lparr>m_refcount := m_refcount (m_nodes m ! b) + 1\<rparr>) = shape (m_nodes m ! b)"
    by (simp add: shape_def)
  then show ?thesis using True
    by (simp add: inc_ref_def norm_rc_def map_update list_update_same_conv)
next
  case False
  then show ?thesis by (simp add: inc_ref_def norm_rc_def list_update_beyond)
qed

lemma apply_pdd_root_norm: "fst (apply_pdd n a b op (norm_rc m)) = fst (apply_pdd n a b op m)"
  by (simp add: norm_apply_pdd map_res_def)

text \<open>
  Claim C10. \<open>sub(a, b)\<close> is \<open>add(a, minus(b))\<close>, run on the same manager, with the handle
  of \<open>minus(b)\<close> dropped afterwards: same result, same final manager. In particular,
  when \<^verbatim>\<open>mod2_semantics\<close> is on and \<open>b\<close> is a live handle, \<open>sub(a, b)\<close> returns the same
  node (or the same failure) as \<open>add(a, b)\<close>.
\<close>

theorem sub_is_add_of_minus:
  "sub fuel a b m = then_do (minus_pdd fuel b m) (\<lambda>mh m1. drop_handle mh (add fuel a mh m1)) \<and>
   (m_mod2_semantics m \<longrightarrow> 0 < m_refcount (m_nodes m ! b) \<longrightarrow>
      fst (sub fuel a b m) = fst (add fuel a b m))"
proof (intro conjI impI)
  show "sub fuel a b m = then_do (minus_pdd fuel b m) (\<lambda>mh m1. drop_handle mh (add fuel a mh m1))"
    by (simp add: sub_def add_def)
next
  assume m2: "m_mod2_semantics m" and live: "0 < m_refcount (m_nodes m ! b)"
  have fp: "\<And>r. fst (pdd_of r) = fst r"
    by (simp add: pdd_of_def then_do_def split: prod.splits sum.splits)
  have "fst (sub fuel a b m) = fst (apply_pdd fuel a b pdd_add_op (inc_ref b m))"
    using m2 by (simp add: sub_def minus_pdd_def pdd_of_def then_do_def drop_handle_def
        split: prod.splits sum.splits)
  also have "\<dots> = fst (apply_pdd fuel a b pdd_add_op (norm_rc (inc_ref b m)))"
    by (simp only: apply_pdd_root_norm)
  also have "\<dots> = fst (apply_pdd fuel a b pdd_add_op (norm_rc m))"
    by (simp only: norm_inc_ref_live[OF live])
  also have "\<dots> = fst (apply_pdd fuel a b pdd_add_op m)"
    by (simp only: apply_pdd_root_norm)
  also have "\<dots> = fst (add fuel a b m)"
    by (simp add: add_def fp)
  finally show "fst (sub fuel a b m) = fst (add fuel a b m)" .
qed

text \<open>A mod-2 manager with \<open>a = v0\<close> (node 2) and \<open>b = v1 + 1\<close> (node 6).\<close>

definition mod2_scenario :: "(PDD \<times> PDD) result" where
  "mod2_scenario =
     then_do (pdd_manager 4) (\<lambda>_ m.
     then_do (mk_var 0 (set_mod2_semantics m)) (\<lambda>v0 m.
     then_do (mk_var 1 m) (\<lambda>v1 m.
     then_do (one m) (\<lambda>i m.
     then_do (add 3 v1 i m) (\<lambda>b m. (Inr (v0, b), m))))))"

lemma mod2_scenario_state:
  "fst mod2_scenario = Inr (2, 6) \<and> m_mod2_semantics (snd mod2_scenario) \<and>
   0 < m_refcount (m_nodes (snd mod2_scenario) ! 6) \<and>
   fst (sub 3 2 6 (snd mod2_scenario)) = Inr 8"
  unfolding mod2_scenario_def
  by (simp add: eval_simps cong: then_do_weak_cong)

theorem sub_is_add_of_minus_witness:
  "m_mod2_semantics (snd mod2_scenario) \<and> 0 < m_refcount (m_nodes (snd mod2_scenario) ! 6) \<and>
   fst (sub 3 2 6 (snd mod2_scenario)) = Inr 8 \<and> fst (add 3 2 6 (snd mod2_scenario)) = Inr 8"
proof -
  have a: "m_mod2_semantics (snd mod2_scenario)"
    and b: "0 < m_refcount (m_nodes (snd mod2_scenario) ! 6)"
    and c: "fst (sub 3 2 6 (snd mod2_scenario)) = Inr 8"
    using mod2_scenario_state by simp_all
  have "m_mod2_semantics (snd mod2_scenario) \<longrightarrow> 0 < m_refcount (m_nodes (snd mod2_scenario) ! 6) \<longrightarrow>
      fst (sub 3 2 6 (snd mod2_scenario)) = fst (add 3 2 6 (snd mod2_scenario))"
    using sub_is_add_of_minus[of 3 2 6 "snd mod2_scenario"] by blast
  then show ?thesis using a b c by simp
qed

end
